theory Spec2Isabelle
  imports Main "HOL-Library.AList"
begin

section \<open>JavaScript values\<close>

text \<open>
  The streaming grid example passes payloads of TypeScript type \<open>any\<close> from the stream
  to the grid. A payload is modelled as a JavaScript value: \<open>undefined\<close>, \<open>null\<close>, a
  boolean, a number (an integer here), a string, an array or an object. An object is the
  list of its own properties in the order an object literal writes them; as in a literal,
  a later binding of a name overwrites an earlier one. JavaScript lists integer-like
  property names before the others; the model keeps the order of definition, and nothing
  below observes the order of properties.
\<close>

datatype jsval =
    JUndefined
  | JNull
  | JBool bool
  | JNum int
  | JStr string
  | JArr "jsval list"
  | JObj "(string \<times> jsval) list"

text \<open>
  What the code throws: the TypeError of a property read on \<open>undefined\<close> or \<open>null\<close>, and
  an \<open>Error\<close> with its message.
\<close>

datatype error = TypeError | JsError string

text \<open>The values \<open>!v\<close> and \<open>a || b\<close> treat as true.\<close>

fun truthy :: "jsval \<Rightarrow> bool" where
  "truthy JUndefined = False"
| "truthy JNull = False"
| "truthy (JBool b) = b"
| "truthy (JNum n) = (n \<noteq> 0)"
| "truthy (JStr s) = (s \<noteq> [])"
| "truthy (JArr xs) = True"
| "truthy (JObj fs) = True"

text \<open>Reading a property of \<open>undefined\<close> or \<open>null\<close> throws a TypeError.\<close>

fun nullish :: "jsval \<Rightarrow> bool" where
  "nullish JUndefined = True"
| "nullish JNull = True"
| "nullish v = False"

text \<open>
  A \<open>Map\<close> compares keys that are strings, numbers, booleans, \<open>undefined\<close> or \<open>null\<close>
  by value, which is how the model compares every key. It compares keys that are objects
  or arrays by reference, which a value cannot show. The model therefore follows the
  source where every key is primitive, and every theorem about \<open>mergeUpdates\<close> and
  \<open>applyUpdatesToData\<close> below asks this of all the messages and rows it speaks of.
\<close>

fun primitive :: "jsval \<Rightarrow> bool" where
  "primitive (JArr xs) = False"
| "primitive (JObj fs) = False"
| "primitive v = True"

fun decimal :: "nat \<Rightarrow> string" where
  "decimal n =
     (if n < 10 then [char_of (48 + n)]
      else decimal (n div 10) @ [char_of (48 + n mod 10)])"

text \<open>
  The own enumerable properties of a value, which are what an object spread copies:
  the properties of an object, the indexed elements of an array, the indexed characters
  of a string, and nothing for the other values.
\<close>

fun ownProps :: "jsval \<Rightarrow> (string \<times> jsval) list" where
  "ownProps (JObj fs) = fs"
| "ownProps (JArr xs) = zip (map decimal [0..<length xs]) xs"
| "ownProps (JStr s) = zip (map decimal [0..<length s]) (map (\<lambda>c. JStr [c]) s)"
| "ownProps v = []"

text \<open>
  \<open>ownField v f\<close> is the value of the own enumerable property \<open>f\<close> of a value that is
  not \<open>undefined\<close> or \<open>null\<close>, and \<open>undefined\<close> when it has none. The source reads the
  properties \<open>id\<close> and \<open>key\<close> only, which no prototype defines, so that the read
  \<open>v.id\<close> is \<open>ownField v ''id''\<close>.
\<close>

definition ownField :: "jsval \<Rightarrow> string \<Rightarrow> jsval" where
  "ownField v f = (case map_of (rev (ownProps v)) f of None \<Rightarrow> JUndefined | Some x \<Rightarrow> x)"

section \<open>The Map of JavaScript\<close>

text \<open>
  A \<open>Map\<close> keeps its entries in the order of insertion, and \<open>set\<close> on a key it holds
  replaces the value where the entry stands: this is \<open>AList.update\<close> on the list of
  entries. \<open>has\<close> and \<open>get\<close> are \<open>map_of\<close>, and \<open>Array.from(m.values())\<close> is
  \<open>map snd\<close>. \<open>new Map(entries)\<close> sets the entries one after the other.
\<close>

definition newMap :: "('k \<times> 'v) list \<Rightarrow> ('k \<times> 'v) list" where
  "newMap entries = foldl (\<lambda>m (k, v). AList.update k v m) [] entries"

text \<open>
  The object literal \<open>{ ...a, ...b }\<close>: a new object that receives the own properties of
  \<open>a\<close> and then those of \<open>b\<close>, one level deep.
\<close>

definition spread :: "jsval \<Rightarrow> jsval \<Rightarrow> jsval" where
  "spread a b = JObj (newMap (ownProps a @ ownProps b))"

section \<open>StreamingGridComponent: merging a batch and applying it\<close>

text \<open>The expression \<open>update.id || update.key\<close>, for a value that is not nullish.\<close>

definition idOrKey :: "jsval \<Rightarrow> jsval" where
  "idOrKey u = (let i = ownField u ''id'' in if truthy i then i else ownField u ''key'')"

text \<open>
  \<open>mergeUpdates\<close>: the loop over the batch. \<open>gen n\<close> is the number
  \<open>Date.now() + Math.random()\<close> at the \<open>n\<close>-th time the call evaluates it.
\<close>

fun mergeLoop ::
  "(nat \<Rightarrow> int) \<Rightarrow> nat \<Rightarrow> (jsval \<times> jsval) list \<Rightarrow> jsval list \<Rightarrow> error + (jsval \<times> jsval) list"
where
  "mergeLoop gen n updateMap [] = Inr updateMap"
| "mergeLoop gen n updateMap (update # rest) =
     (if nullish update then Inl TypeError
      else if truthy (idOrKey update)
        then mergeLoop gen n (AList.update (idOrKey update) update updateMap) rest
        else mergeLoop gen (Suc n) (AList.update (JNum (gen n)) update updateMap) rest)"

definition mergeUpdates :: "(nat \<Rightarrow> int) \<Rightarrow> jsval list \<Rightarrow> error + jsval list" where
  "mergeUpdates gen updates =
     (case mergeLoop gen 0 [] updates of
        Inl e \<Rightarrow> Inl e
      | Inr updateMap \<Rightarrow> Inr (map snd updateMap))"

text \<open>\<open>currentData.map(item => [item.id || item.key, item])\<close>\<close>

fun entriesOf :: "jsval list \<Rightarrow> error + (jsval \<times> jsval) list" where
  "entriesOf [] = Inr []"
| "entriesOf (item # rest) =
     (if nullish item then Inl TypeError
      else case entriesOf rest of
        Inl e \<Rightarrow> Inl e
      | Inr es \<Rightarrow> Inr ((idOrKey item, item) # es))"

text \<open>The body of the loop of \<open>applyUpdatesToData\<close>.\<close>

definition applyUpdate :: "(jsval \<times> jsval) list \<Rightarrow> jsval \<Rightarrow> error + (jsval \<times> jsval) list" where
  "applyUpdate dataMap update =
     (if nullish update then Inl TypeError
      else case map_of dataMap (idOrKey update) of
        Some existing \<Rightarrow>
          Inr (AList.update (idOrKey update) (spread existing update) dataMap)
      | None \<Rightarrow> Inr (AList.update (idOrKey update) update dataMap))"

fun applyLoop :: "(jsval \<times> jsval) list \<Rightarrow> jsval list \<Rightarrow> error + (jsval \<times> jsval) list" where
  "applyLoop dataMap [] = Inr dataMap"
| "applyLoop dataMap (update # rest) =
     (case applyUpdate dataMap update of
        Inl e \<Rightarrow> Inl e
      | Inr dataMap' \<Rightarrow> applyLoop dataMap' rest)"

text \<open>The \<open>Map\<close> that \<open>applyUpdatesToData\<close> builds from the rows it is given.\<close>

definition tableMap :: "jsval list \<Rightarrow> error + (jsval \<times> jsval) list" where
  "tableMap currentData =
     (case entriesOf currentData of
        Inl e \<Rightarrow> Inl e
      | Inr es \<Rightarrow> Inr (newMap es))"

definition applyUpdatesToData :: "jsval list \<Rightarrow> jsval list \<Rightarrow> error + jsval list" where
  "applyUpdatesToData currentData updates =
     (case tableMap currentData of
        Inl e \<Rightarrow> Inl e
      | Inr dataMap \<Rightarrow>
          (case applyLoop dataMap updates of
             Inl e \<Rightarrow> Inl e
           | Inr dataMap' \<Rightarrow> Inr (map snd dataMap')))"

section \<open>GridAdapterService\<close>

text \<open>
  The grid is a collaborator of the adapter: the model keeps what its queries answer and
  the list of the calls it has received, in order. A handle of type \<open>GridApi option\<close>
  is \<open>None\<close> when the source's handle is \<open>null\<close> or \<open>undefined\<close>.
\<close>

datatype RowNode = RowNode jsval

datatype rowTransaction = TxAdd "jsval list" | TxUpdate "jsval list" | TxRemove "jsval list"

datatype gridCall =
    ApplyTransaction rowTransaction
  | SetRowData "jsval list"
  | SetFilterModel jsval
  | SelectAll
  | DeselectAll
  | NodeSetSelected RowNode bool
  | RefreshCells
  | ExportDataAsCsv string bool
  | EnsureIndexVisible int string

record GridApi =
  apiSelectedRows :: "jsval list"
  apiSelectedNodes :: "RowNode list"
  apiDisplayedRowCount :: nat
  apiNodes :: "RowNode list"
  calls :: "gridCall list"

record GridSelection =
  selectedRows :: "jsval list"
  selectedNodes :: "RowNode list"
  selectedCount :: nat

record GridFilter =
  column :: string
  filterType :: string
  filterValue :: jsval

definition called :: "gridCall \<Rightarrow> GridApi \<Rightarrow> GridApi" where
  "called c api = api\<lparr>calls := calls api @ [c]\<rparr>"

definition getSelectedRows :: "GridApi option \<Rightarrow> jsval list" where
  "getSelectedRows gridApi = (case gridApi of None \<Rightarrow> [] | Some api \<Rightarrow> apiSelectedRows api)"

definition getSelectedNodes :: "GridApi option \<Rightarrow> RowNode list" where
  "getSelectedNodes gridApi = (case gridApi of None \<Rightarrow> [] | Some api \<Rightarrow> apiSelectedNodes api)"

definition getSelection :: "GridApi option \<Rightarrow> GridSelection" where
  "getSelection gridApi =
     \<lparr>selectedRows = getSelectedRows gridApi,
      selectedNodes = getSelectedNodes gridApi,
      selectedCount = length (getSelectedRows gridApi)\<rparr>"

definition selectAll :: "GridApi option \<Rightarrow> GridApi option" where
  "selectAll gridApi = (case gridApi of None \<Rightarrow> None | Some api \<Rightarrow> Some (called SelectAll api))"

definition deselectAll :: "GridApi option \<Rightarrow> GridApi option" where
  "deselectAll gridApi = (case gridApi of None \<Rightarrow> None | Some api \<Rightarrow> Some (called DeselectAll api))"

fun nodeData :: "RowNode \<Rightarrow> jsval" where
  "nodeData (RowNode d) = d"

definition selectRowsByCondition :: "GridApi option \<Rightarrow> (jsval \<Rightarrow> bool) \<Rightarrow> GridApi option" where
  "selectRowsByCondition gridApi condition =
     (case gridApi of
        None \<Rightarrow> None
      | Some api \<Rightarrow>
          Some (foldl (\<lambda>a node. if condition (nodeData node) then called (NodeSetSelected node True) a else a)
                  api (apiNodes api)))"

definition filterModelOf :: "GridFilter \<Rightarrow> jsval" where
  "filterModelOf f =
     JObj [(column f,
            JObj [(''filterType'', JStr (filterType f)),
                  (''type'', JStr ''equals''),
                  (''filter'', filterValue f)])]"

definition applyFilter :: "GridApi option \<Rightarrow> GridFilter \<Rightarrow> GridApi option" where
  "applyFilter gridApi f =
     (case gridApi of
        None \<Rightarrow> None
      | Some api \<Rightarrow> Some (called (SetFilterModel (filterModelOf f)) api))"

definition clearFilters :: "GridApi option \<Rightarrow> GridApi option" where
  "clearFilters gridApi =
     (case gridApi of None \<Rightarrow> None | Some api \<Rightarrow> Some (called (SetFilterModel JNull) api))"

definition refreshData :: "GridApi option \<Rightarrow> GridApi option" where
  "refreshData gridApi = (case gridApi of None \<Rightarrow> None | Some api \<Rightarrow> Some (called RefreshCells api))"

definition updateRowData :: "GridApi option \<Rightarrow> jsval list \<Rightarrow> GridApi option" where
  "updateRowData gridApi newData =
     (case gridApi of None \<Rightarrow> None | Some api \<Rightarrow> Some (called (SetRowData newData) api))"

definition addRows :: "GridApi option \<Rightarrow> jsval list \<Rightarrow> GridApi option" where
  "addRows gridApi newRows =
     (case gridApi of
        None \<Rightarrow> None
      | Some api \<Rightarrow> Some (called (ApplyTransaction (TxAdd newRows)) api))"

definition updateRows :: "GridApi option \<Rightarrow> jsval list \<Rightarrow> GridApi option" where
  "updateRows gridApi updatedRows =
     (case gridApi of
        None \<Rightarrow> None
      | Some api \<Rightarrow> Some (called (ApplyTransaction (TxUpdate updatedRows)) api))"

definition removeRows :: "GridApi option \<Rightarrow> jsval list \<Rightarrow> GridApi option" where
  "removeRows gridApi rowsToRemove =
     (case gridApi of
        None \<Rightarrow> None
      | Some api \<Rightarrow> Some (called (ApplyTransaction (TxRemove rowsToRemove)) api))"

text \<open>\<open>fileName || d\<close> for an optional string: the default when it is absent or empty.\<close>

definition orDefault :: "string option \<Rightarrow> string \<Rightarrow> string" where
  "orDefault fileName d = (case fileName of None \<Rightarrow> d | Some n \<Rightarrow> if n = [] then d else n)"

definition exportToCsv :: "GridApi option \<Rightarrow> string option \<Rightarrow> GridApi option" where
  "exportToCsv gridApi fileName =
     (case gridApi of
        None \<Rightarrow> None
      | Some api \<Rightarrow> Some (called (ExportDataAsCsv (orDefault fileName ''grid-export'') False) api))"

definition exportSelectedToCsv :: "GridApi option \<Rightarrow> string option \<Rightarrow> GridApi option" where
  "exportSelectedToCsv gridApi fileName =
     (case gridApi of
        None \<Rightarrow> None
      | Some api \<Rightarrow>
          Some (called (ExportDataAsCsv (orDefault fileName ''grid-selected-export'') True) api))"

definition getVisibleRowCount :: "GridApi option \<Rightarrow> nat" where
  "getVisibleRowCount gridApi = (case gridApi of None \<Rightarrow> 0 | Some api \<Rightarrow> apiDisplayedRowCount api)"

definition scrollToRow :: "GridApi option \<Rightarrow> int \<Rightarrow> GridApi option" where
  "scrollToRow gridApi rowIndex =
     (case gridApi of
        None \<Rightarrow> None
      | Some api \<Rightarrow> Some (called (EnsureIndexVisible rowIndex ''middle'') api))"

section \<open>StreamingGridComponent: the flush of a window\<close>

record StreamingGridComponent =
  gridApi :: "GridApi option"
  rowData :: "jsval list"

text \<open>
  \<open>processBatchUpdates\<close> returns the component as the call leaves it, with the exception
  when one leaves the call: a throw of \<open>mergeUpdates\<close> comes before the grid is called,
  a throw of \<open>applyUpdatesToData\<close> after.
\<close>

definition processBatchUpdates ::
  "(nat \<Rightarrow> int) \<Rightarrow> StreamingGridComponent \<Rightarrow> jsval list \<Rightarrow> error option \<times> StreamingGridComponent"
where
  "processBatchUpdates gen c updates =
     (case gridApi c of
        None \<Rightarrow> (None, c)
      | Some api \<Rightarrow>
          (case mergeUpdates gen updates of
             Inl e \<Rightarrow> (Some e, c)
           | Inr mergedUpdates \<Rightarrow>
               (let c1 = c\<lparr>gridApi := updateRows (gridApi c) mergedUpdates\<rparr> in
                case applyUpdatesToData (rowData c1) mergedUpdates of
                  Inl e \<Rightarrow> (Some e, c1)
                | Inr updatedData \<Rightarrow> (None, c1\<lparr>rowData := updatedData\<rparr>))))"

text \<open>
  The subscriber of \<open>setupBatchUpdates\<close>, with the \<open>map\<close> before it: what the component
  does with the buffer of one window.
\<close>

definition flushWindow ::
  "(nat \<Rightarrow> int) \<Rightarrow> StreamingGridComponent \<Rightarrow> jsval list \<Rightarrow> error option \<times> StreamingGridComponent"
where
  "flushWindow gen c buffer =
     (let updates = filter (\<lambda>u. u \<noteq> JNull) buffer in
      if length updates > 0 then processBatchUpdates gen c updates else (None, c))"

text \<open>The component's \<open>applyFilter\<close> and \<open>clearFilters\<close>.\<close>

definition componentApplyFilter :: "string \<Rightarrow> jsval \<Rightarrow> StreamingGridComponent \<Rightarrow> StreamingGridComponent" where
  "componentApplyFilter col v c =
     (if gridApi c \<noteq> None
      then c\<lparr>gridApi := applyFilter (gridApi c) \<lparr>column = col, filterType = ''text'', filterValue = v\<rparr>\<rparr>
      else c)"

definition componentClearFilters :: "StreamingGridComponent \<Rightarrow> StreamingGridComponent" where
  "componentClearFilters c =
     (if gridApi c \<noteq> None then c\<lparr>gridApi := clearFilters (gridApi c)\<rparr> else c)"

text \<open>The calls of a handle's grid that add, change or remove rows.\<close>

fun changesRows :: "gridCall \<Rightarrow> bool" where
  "changesRows (ApplyTransaction t) = True"
| "changesRows (SetRowData rows) = True"
| "changesRows c = False"

definition rowCalls :: "GridApi option \<Rightarrow> gridCall list" where
  "rowCalls g = (case g of None \<Rightarrow> [] | Some api \<Rightarrow> filter changesRows (calls api))"

section \<open>Streams in time\<close>

text \<open>
  A stream is the list of its emissions, each with the time in milliseconds at which it
  is emitted, in the order of emission. The operators of the reactive library are
  modelled by what their documentation says.

  \<open>debounceTime d\<close> emits a value \<open>d\<close> milliseconds after it arrived when no other value
  has arrived in between, and drops it otherwise. When the next value arrives in the
  very millisecond \<open>t\<close> in which the timer is due, the order in which the runtime runs
  the two decides, and the source does not determine it: \<open>timerFirst t\<close> tells whether
  the timer runs first, and the value is then emitted. \<open>bufferTime w\<close>
  emits, every \<open>w\<close> milliseconds, the list of the values that arrived since its last
  emission, also when the list is empty; \<open>bufferTime w n\<close> is its first \<open>n\<close> emissions.
\<close>

type_synonym 'a timed = "(nat \<times> 'a) list"

fun debounceTime :: "(nat \<Rightarrow> bool) \<Rightarrow> nat \<Rightarrow> 'a timed \<Rightarrow> 'a timed" where
  "debounceTime timerFirst d [] = []"
| "debounceTime timerFirst d [(t, v)] = [(t + d, v)]"
| "debounceTime timerFirst d ((t, v) # (t', v') # rest) =
     (if t' < t + d \<or> (t' = t + d \<and> \<not> timerFirst t')
      then debounceTime timerFirst d ((t', v') # rest)
      else (t + d, v) # debounceTime timerFirst d ((t', v') # rest))"

definition bufferTime :: "nat \<Rightarrow> nat \<Rightarrow> 'a timed \<Rightarrow> 'a list list" where
  "bufferTime w n evs = map (\<lambda>k. map snd (filter (\<lambda>e. fst e div w = k) evs)) [0..<n]"

record StreamMessage =
  topic :: string
  payload :: jsval
  timestamp :: nat

definition subscribeToTopic :: "string \<Rightarrow> StreamMessage timed \<Rightarrow> jsval timed" where
  "subscribeToTopic tp messages =
     map (\<lambda>e. (fst e, payload (snd e))) (filter (\<lambda>e. topic (snd e) = tp) messages)"

text \<open>
  The subscription of \<open>setupBatchUpdates\<close> over the buffers of the windows, one after the
  other: each buffer, with its \<open>null\<close> values taken out, is a batch emitted to the
  subscriber, which flushes it. The subscriber has no handler for an exception: a flush
  that throws ends the subscription, and no later buffer is emitted. The result is the
  list of the batches emitted, the component as the run leaves it and the exception
  that ended the run, if one did. \<open>gens k\<close> gives the generated numbers of the flush of
  window \<open>k\<close>.
\<close>

fun runWindows ::
  "(nat \<Rightarrow> nat \<Rightarrow> int) \<Rightarrow> nat \<Rightarrow> StreamingGridComponent \<Rightarrow> jsval list list
     \<Rightarrow> jsval list list \<times> StreamingGridComponent \<times> error option"
where
  "runWindows gens k c [] = ([], c, None)"
| "runWindows gens k c (buffer # rest) =
     (case flushWindow (gens k) c buffer of
        (Some e, c') \<Rightarrow> ([filter (\<lambda>u. u \<noteq> JNull) buffer], c', Some e)
      | (None, c') \<Rightarrow>
          (case runWindows gens (Suc k) c' rest of
             (bs, c'', r) \<Rightarrow> (filter (\<lambda>u. u \<noteq> JNull) buffer # bs, c'', r)))"

text \<open>
  \<open>subscribeToStream\<close> and \<open>setupBatchUpdates\<close>: the messages the topic subscription
  delivers pass \<open>debounceTime(50)\<close>, enter the queue, and leave it in the buffers of
  \<open>bufferTime(100)\<close>. \<open>batches\<close> are the batches emitted in the first \<open>n\<close> windows of a
  component that starts as \<open>c\<close>.
\<close>

definition batches ::
  "(nat \<Rightarrow> bool) \<Rightarrow> (nat \<Rightarrow> nat \<Rightarrow> int) \<Rightarrow> StreamingGridComponent \<Rightarrow> nat \<Rightarrow> jsval timed
     \<Rightarrow> jsval list list"
where
  "batches timerFirst gens c n delivered =
     fst (runWindows gens 0 c (bufferTime 100 n (debounceTime timerFirst 50 delivered)))"

section \<open>StreamingService: connecting\<close>

record StreamConfig =
  url :: string
  cfgReconnectAttempts :: "nat option"
  reconnectDelay :: "nat option"
  bufferSize :: "nat option"

record StreamingService =
  connectionStatus :: bool
  reconnectAttempts :: nat
  maxReconnectAttempts :: nat
  config :: "StreamConfig option"
  rsocketClient :: "nat option"

text \<open>A service as its field initialisers leave it.\<close>

definition newService :: StreamingService where
  "newService =
     \<lparr>connectionStatus = False, reconnectAttempts = 0, maxReconnectAttempts = 5,
      config = None, rsocketClient = None\<rparr>"

text \<open>\<open>this.config.reconnectDelay || 1000\<close>\<close>

definition delayOf :: "StreamConfig \<Rightarrow> nat" where
  "delayOf cfg = (case reconnectDelay cfg of None \<Rightarrow> 1000 | Some d \<Rightarrow> if d = 0 then 1000 else d)"

text \<open>
  \<open>createRSocketClient\<close>: its body is the one statement
  \<open>throw new Error('Implement r-socket client creation')\<close>.
\<close>

definition createRSocketClient :: "StreamConfig \<Rightarrow> error + nat" where
  "createRSocketClient cfg = Inl (JsError ''Implement r-socket client creation'')"

text \<open>
  What a subscriber of \<open>connect(config)\<close> observes, and the waiting in between. An
  attempt calls \<open>createRSocketClient\<close>; when the call returns, the status becomes true
  and the result emits \<open>true\<close> and completes. When it throws, the status becomes false and
  the error goes to the notifier of \<open>retryWhen\<close>: \<open>delay\<close> holds it for the delay, \<open>take\<close>
  lets the first \<open>maxReconnectAttempts\<close> errors through and then completes, which
  completes the result, and \<open>tap\<close> counts the error before the source is subscribed to
  again.
\<close>

datatype connectEvent = Delay nat | Next bool | Complete

fun attempts ::
  "StreamConfig \<Rightarrow> nat \<Rightarrow> nat \<Rightarrow> StreamingService \<Rightarrow> connectEvent list \<times> StreamingService"
where
  "attempts cfg d remaining s =
     (case createRSocketClient cfg of
        Inr client \<Rightarrow>
          ([Next True, Complete], s\<lparr>rsocketClient := Some client, connectionStatus := True\<rparr>)
      | Inl e \<Rightarrow>
          (case remaining of
             0 \<Rightarrow> ([Complete], s\<lparr>connectionStatus := False\<rparr>)
           | Suc r \<Rightarrow>
               (let (evs, s') =
                      attempts cfg d r
                        (s\<lparr>connectionStatus := False,
                           reconnectAttempts := reconnectAttempts s + 1\<rparr>)
                in (Delay d # evs, s'))))"

definition connect :: "StreamConfig \<Rightarrow> StreamingService \<Rightarrow> connectEvent list \<times> StreamingService" where
  "connect cfg s = attempts cfg (delayOf cfg) (maxReconnectAttempts s) (s\<lparr>config := Some cfg\<rparr>)"


fun retryDelays :: "connectEvent list \<Rightarrow> nat list" where
  "retryDelays [] = []"
| "retryDelays (Delay d # evs) = d # retryDelays evs"
| "retryDelays (e # evs) = retryDelays evs"

section \<open>Invariants\<close>

text \<open>
  The entries of a \<open>Map\<close> have distinct keys, and in the \<open>Map\<close> of \<open>mergeUpdates\<close> the
  messages of key \<open>k\<close> are the entries under \<open>k\<close>.
\<close>

definition keyed :: "jsval \<Rightarrow> (jsval \<times> jsval) list \<Rightarrow> bool" where
  "keyed k m = (distinct (map fst m) \<and> (\<forall>e\<in>set m. (idOrKey (snd e) = k) = (fst e = k)))"

text \<open>
  The \<open>Map\<close> of \<open>applyUpdatesToData\<close> holds each row under the row's own key, and no
  row is \<open>undefined\<close> or \<open>null\<close>.
\<close>

definition tableInv :: "(jsval \<times> jsval) list \<Rightarrow> bool" where
  "tableInv dm =
     (distinct (map fst dm) \<and> (\<forall>e\<in>set dm. fst e = idOrKey (snd e) \<and> \<not> nullish (snd e)))"

section \<open>Inputs of the scenarios\<close>

text \<open>The configuration of scenario C: a base delay of 100 ms.\<close>

definition cfg100 :: StreamConfig where
  "cfg100 =
     \<lparr>url = ''ws://your-kafka-stream-url'', cfgReconnectAttempts = Some 5,
      reconnectDelay = Some 100, bufferSize = None\<rparr>"

text \<open>
  Values of \<open>Date.now() + Math.random()\<close>, one for each evaluation: two evaluations give
  different numbers.
\<close>

definition stamps :: "nat \<Rightarrow> int" where
  "stamps n = 1700000000000 + int n"

text \<open>The messages of scenario A.\<close>

definition m10 :: jsval where
  "m10 = JObj [(''key'', JStr ''1''), (''price'', JNum 10)]"

definition m12 :: jsval where
  "m12 = JObj [(''key'', JStr ''1''), (''price'', JNum 12)]"

text \<open>Two messages with the key 0.\<close>

definition z1 :: jsval where
  "z1 = JObj [(''key'', JNum 0), (''a'', JNum 1)]"

definition z2 :: jsval where
  "z2 = JObj [(''key'', JNum 0), (''b'', JNum 2)]"

text \<open>Scenario B: a row of key 2, an update and a removal for it; and a row of key 3.\<close>

definition row2 :: jsval where
  "row2 = JObj [(''key'', JStr ''2''), (''price'', JNum 7)]"

definition row3 :: jsval where
  "row3 = JObj [(''id'', JStr ''3''), (''price'', JNum 9)]"

definition updB :: jsval where
  "updB = JObj [(''key'', JStr ''2''), (''op'', JStr ''update''),
                (''fields'', JObj [(''price'', JNum 5)])]"

definition remB :: jsval where
  "remB = JObj [(''key'', JStr ''2''), (''op'', JStr ''remove'')]"

text \<open>A row with a nested structure, and an update that names the structure.\<close>

definition rowM :: jsval where
  "rowM = JObj [(''key'', JStr ''1''), (''price'', JNum 10),
                (''meta'', JObj [(''a'', JNum 1), (''b'', JNum 2)])]"

definition updM :: jsval where
  "updM = JObj [(''key'', JStr ''1''), (''meta'', JObj [(''a'', JNum 5)])]"

text \<open>A grid that has received no call, and a component that holds it and no row.\<close>

definition grid0 :: GridApi where
  "grid0 =
     \<lparr>apiSelectedRows = [], apiSelectedNodes = [], apiDisplayedRowCount = 0,
      apiNodes = [], calls = []\<rparr>"

definition comp0 :: StreamingGridComponent where
  "comp0 = \<lparr>gridApi = Some grid0, rowData = []\<rparr>"

section \<open>The adapter without a grid\<close>

text \<open>
  C10. Every operation of GridAdapterService that takes a grid handle returns at once when
  the handle is null or undefined: the queries answer the empty list of rows, the empty
  list of nodes, the empty selection with count zero and the row count zero, and the
  operations that change or export the grid do nothing. No branch of them throws.
\<close>

theorem adapter_total_without_grid:
  "getSelectedRows None = []
   \<and> getSelectedNodes None = []
   \<and> getSelection None = \<lparr>selectedRows = [], selectedNodes = [], selectedCount = 0\<rparr>
   \<and> getVisibleRowCount None = 0
   \<and> selectAll None = None
   \<and> deselectAll None = None
   \<and> selectRowsByCondition None condition = None
   \<and> applyFilter None f = None
   \<and> clearFilters None = None
   \<and> refreshData None = None
   \<and> updateRowData None newData = None
   \<and> addRows None rows = None
   \<and> updateRows None rows = None
   \<and> removeRows None rows = None
   \<and> exportToCsv None fileName = None
   \<and> exportSelectedToCsv None fileName = None
   \<and> scrollToRow None rowIndex = None"
  by (simp add: getSelectedRows_def getSelectedNodes_def getSelection_def getVisibleRowCount_def
      selectAll_def deselectAll_def selectRowsByCondition_def applyFilter_def clearFilters_def
      refreshData_def updateRowData_def addRows_def updateRows_def removeRows_def exportToCsv_def
      exportSelectedToCsv_def scrollToRow_def)

section \<open>Filtering\<close>

text \<open>
  C9. For every state of the component and every filter, applying a filter and clearing the
  filters leave the rows the component holds as they are, and the only call the grid
  receives sets its filter model: no call that adds, changes, removes or replaces rows is
  issued, by the component's operations or by the adapter's.
\<close>

theorem filter_keeps_rows:
  "rowData (componentApplyFilter col v c) = rowData c
   \<and> rowData (componentClearFilters c) = rowData c
   \<and> rowCalls (gridApi (componentApplyFilter col v c)) = rowCalls (gridApi c)
   \<and> rowCalls (gridApi (componentClearFilters c)) = rowCalls (gridApi c)
   \<and> rowCalls (applyFilter g f) = rowCalls g
   \<and> rowCalls (clearFilters g) = rowCalls g"
  by (cases "gridApi c"; cases g)
     (simp_all add: componentApplyFilter_def componentClearFilters_def rowCalls_def
        applyFilter_def clearFilters_def called_def)

section \<open>Retrying the connection\<close>

lemma attempts_eq:
  "attempts cfg d r s
     = (replicate r (Delay d) @ [Complete],
        s\<lparr>connectionStatus := False, reconnectAttempts := reconnectAttempts s + r\<rparr>)"
proof (induction r arbitrary: s)
  case 0
  show ?case by (simp add: createRSocketClient_def)
next
  case (Suc r)
  show ?case
    using Suc.IH [of "s\<lparr>connectionStatus := False, reconnectAttempts := reconnectAttempts s + 1\<rparr>"]
    by (simp add: createRSocketClient_def)
qed

lemma retryDelays_replicate: "retryDelays (replicate r (Delay d) @ [Complete]) = replicate r d"
  by (induction r) simp_all

text \<open>
  C3, as the claim states it, fails: with a base delay of 100 ms, the five retries are each
  delayed by 100 ms, so the second retry waits 100 ms and not 200 ms; the result then
  completes with the boolean status false, there being no Failed state.
\<close>

theorem backoff_counterexample:
  "retryDelays (fst (connect cfg100 newService)) = [100, 100, 100, 100, 100]
   \<and> retryDelays (fst (connect cfg100 newService)) ! 1 \<noteq> 100 * 2 ^ 1
   \<and> fst (connect cfg100 newService)
       = [Delay 100, Delay 100, Delay 100, Delay 100, Delay 100, Complete]"
  by (simp add: connect_def cfg100_def newService_def delayOf_def createRSocketClient_def)

text \<open>
  C3, amended. On connection failure every retry is delayed by the same time, the
  configured reconnect delay (1000 ms when it is absent or zero): there is no growth and
  no cap. Every attempt fails, as \<open>createRSocketClient\<close> throws in every call, so exactly
  \<open>maxReconnectAttempts\<close> retries are made, after which the result completes without an
  error and the connection status, a boolean, is false; the retry counter has grown by
  the number of retries.
\<close>

theorem retry_delay_constant:
  "connect cfg s
     = (replicate (maxReconnectAttempts s) (Delay (delayOf cfg)) @ [Complete],
        s\<lparr>config := Some cfg, connectionStatus := False,
          reconnectAttempts := reconnectAttempts s + maxReconnectAttempts s\<rparr>)
   \<and> retryDelays (fst (connect cfg s)) = replicate (maxReconnectAttempts s) (delayOf cfg)"
  by (simp add: connect_def attempts_eq retryDelays_replicate del: attempts.simps)


section \<open>Maps and spreads\<close>

lemma map_of_rev_distinct: "distinct (map fst xs) \<Longrightarrow> map_of (rev xs) = map_of xs"
proof (induction xs)
  case Nil
  show ?case by simp
next
  case (Cons x xs)
  obtain k v where x: "x = (k, v)" by (cases x)
  from Cons.prems x have nk: "k \<notin> fst ` set xs" and d: "distinct (map fst xs)" by auto
  from nk have none: "map_of (rev xs) k = None"
    by (simp add: map_of_eq_None_iff)
  show ?case
    using Cons.IH [OF d] none x
    by (auto simp: fun_eq_iff map_add_def split: option.splits)
qed

lemma map_of_foldl_update:
  "map_of (foldl (\<lambda>m (k, v). AList.update k v m) acc xs) = map_of acc ++ map_of (rev xs)"
proof (induction xs arbitrary: acc)
  case Nil
  show ?case by simp
next
  case (Cons x xs)
  obtain k v where x: "x = (k, v)" by (cases x)
  show ?case
    using Cons.IH [of "AList.update k v acc"] x
    by (auto simp: fun_eq_iff map_add_def update_conv' split: option.splits)
qed

lemma distinct_foldl_update:
  "distinct (map fst acc) \<Longrightarrow> distinct (map fst (foldl (\<lambda>m (k, v). AList.update k v m) acc xs))"
proof (induction xs arbitrary: acc)
  case Nil
  then show ?case by simp
next
  case (Cons x xs)
  obtain k v where x: "x = (k, v)" by (cases x)
  show ?case
    using Cons.IH [of "AList.update k v acc"] Cons.prems x
    by (simp add: distinct_update)
qed

lemma map_of_newMap: "map_of (newMap xs) = map_of (rev xs)"
  by (simp add: newMap_def map_of_foldl_update)

lemma distinct_newMap: "distinct (map fst (newMap xs))"
  by (simp add: newMap_def distinct_foldl_update)

lemma ownField_spread:
  "ownField (spread a b) f
     = (if f \<in> fst ` set (ownProps b) then ownField b f else ownField a f)"
proof -
  have 1: "map_of (rev (newMap (ownProps a @ ownProps b))) f
      = (map_of (rev (ownProps a)) ++ map_of (rev (ownProps b))) f"
    by (simp add: map_of_rev_distinct [OF distinct_newMap] map_of_newMap)
  show ?thesis
  proof (cases "f \<in> fst ` set (ownProps b)")
    case True
    then have "map_of (rev (ownProps b)) f \<noteq> None"
      by (simp add: map_of_eq_None_iff)
    then show ?thesis using True 1
      by (auto simp: ownField_def spread_def map_add_def split: option.splits)
  next
    case False
    then have "map_of (rev (ownProps b)) f = None"
      by (simp add: map_of_eq_None_iff)
    then show ?thesis using False 1
      by (simp add: ownField_def spread_def map_add_def)
  qed
qed

section \<open>Merging a batch\<close>

lemma set_update_subset: "set (AList.update k v al) \<subseteq> insert (k, v) (set al)"
  by (induction al) auto

lemma mergeLoop_total:
  "\<forall>u\<in>set us. \<not> nullish u \<Longrightarrow> \<exists>m. mergeLoop gen n acc us = Inr m"
  by (induction us arbitrary: n acc) auto

lemma mergeLoop_values:
  "mergeLoop gen n acc us = Inr m \<Longrightarrow> snd ` set m \<subseteq> snd ` set acc \<union> set us"
proof (induction us arbitrary: n acc)
  case Nil
  then show ?case by simp
next
  case (Cons u us)
  have s: "\<And>key. snd ` set (AList.update key u acc) \<subseteq> insert u (snd ` set acc)"
    using set_update_subset by fastforce
  from Cons.prems have nn: "\<not> nullish u" by (auto split: if_splits)
  show ?case
  proof (cases "truthy (idOrKey u)")
    case True
    with Cons.prems nn have "mergeLoop gen n (AList.update (idOrKey u) u acc) us = Inr m" by simp
    from Cons.IH [OF this] s [of "idOrKey u"] show ?thesis by auto
  next
    case False
    with Cons.prems nn have "mergeLoop gen (Suc n) (AList.update (JNum (gen n)) u acc) us = Inr m" by simp
    from Cons.IH [OF this] s [of "JNum (gen n)"] show ?thesis by auto
  qed
qed

lemma mergeLoop_key:
  assumes "truthy k" and "\<forall>n. JNum (gen n) \<noteq> k"
  shows "mergeLoop gen n acc us = Inr m \<Longrightarrow>
    map_of m k = (if filter (\<lambda>u. idOrKey u = k) us = [] then map_of acc k
                  else Some (last (filter (\<lambda>u. idOrKey u = k) us)))"
proof (induction us arbitrary: n acc)
  case Nil
  then show ?case by simp
next
  case (Cons u us)
  from Cons.prems have nn: "\<not> nullish u" by (auto split: if_splits)
  show ?case
  proof (cases "truthy (idOrKey u)")
    case True
    with Cons.prems nn have "mergeLoop gen n (AList.update (idOrKey u) u acc) us = Inr m" by simp
    from Cons.IH [OF this] show ?thesis
      by (simp add: update_conv')
  next
    case False
    with assms(1) have ne: "idOrKey u \<noteq> k" by auto
    from False Cons.prems nn have "mergeLoop gen (Suc n) (AList.update (JNum (gen n)) u acc) us = Inr m" by simp
    have "JNum (gen n) \<noteq> k" using assms(2) by simp
    with Cons.IH [OF \<open>mergeLoop gen (Suc n) (AList.update (JNum (gen n)) u acc) us = Inr m\<close>] ne
    show ?thesis
      by (simp add: update_conv')
  qed
qed

lemma keyed_update:
  "keyed k m \<Longrightarrow> (idOrKey u = k) = (key = k) \<Longrightarrow> keyed k (AList.update key u m)"
  unfolding keyed_def
  using set_update_subset [of key u m]
  by (auto simp: distinct_update)

lemma mergeLoop_keyed:
  assumes "truthy k" and "\<forall>n. JNum (gen n) \<noteq> k"
  shows "mergeLoop gen n acc us = Inr m \<Longrightarrow> keyed k acc \<Longrightarrow> keyed k m"
proof (induction us arbitrary: n acc)
  case Nil
  then show ?case by simp
next
  case (Cons u us)
  from Cons.prems have nn: "\<not> nullish u" by (auto split: if_splits)
  show ?case
  proof (cases "truthy (idOrKey u)")
    case True
    with Cons.prems nn have 1: "mergeLoop gen n (AList.update (idOrKey u) u acc) us = Inr m" by simp
    have "keyed k (AList.update (idOrKey u) u acc)"
      by (rule keyed_update [OF Cons.prems(2)]) simp
    from Cons.IH [OF 1 this] show ?thesis .
  next
    case False
    with assms(1) have ne: "idOrKey u \<noteq> k" by auto
    from False Cons.prems nn have 1: "mergeLoop gen (Suc n) (AList.update (JNum (gen n)) u acc) us = Inr m" by simp
    have "keyed k (AList.update (JNum (gen n)) u acc)"
      by (rule keyed_update [OF Cons.prems(2)]) (use ne assms(2) in simp)
    from Cons.IH [OF 1 this] show ?thesis .
  qed
qed

lemma keyed_filter:
  "keyed k m \<Longrightarrow>
   filter (\<lambda>u. idOrKey u = k) (map snd m) = (case map_of m k of None \<Rightarrow> [] | Some v \<Rightarrow> [v])"
proof (induction m)
  case Nil
  show ?case by simp
next
  case (Cons e m)
  obtain key u where e: "e = (key, u)" by (cases e)
  from Cons.prems have km: "keyed k m" by (simp add: keyed_def)
  show ?case
  proof (cases "key = k")
    case True
    with Cons.prems e have "k \<notin> fst ` set m" by (auto simp: keyed_def)
    then have "map_of m k = None" by (simp add: map_of_eq_None_iff)
    with Cons.IH [OF km] have "filter (\<lambda>u. idOrKey u = k) (map snd m) = []" by simp
    moreover from Cons.prems e True have "idOrKey u = k" by (simp add: keyed_def)
    ultimately show ?thesis using e True by simp
  next
    case False
    with Cons.prems e have "idOrKey u \<noteq> k" by (simp add: keyed_def)
    with Cons.IH [OF km] False e show ?thesis by simp
  qed
qed

lemma merge_last_wins:
  assumes nn: "\<forall>u\<in>set updates. \<not> nullish u"
    and k: "truthy k" "\<forall>n. JNum (gen n) \<noteq> k"
    and ex: "filter (\<lambda>u. idOrKey u = k) updates \<noteq> []"
  shows "\<exists>merged. mergeUpdates gen updates = Inr merged
     \<and> set merged \<subseteq> set updates
     \<and> filter (\<lambda>u. idOrKey u = k) merged = [last (filter (\<lambda>u. idOrKey u = k) updates)]"
proof -
  from mergeLoop_total [OF nn] obtain m where m: "mergeLoop gen 0 [] updates = Inr m" by blast
  have 1: "map_of m k = Some (last (filter (\<lambda>u. idOrKey u = k) updates))"
    using mergeLoop_key [OF k m] ex by simp
  have "keyed k m" by (rule mergeLoop_keyed [OF k m]) (simp add: keyed_def)
  from keyed_filter [OF this] 1
  have 2: "filter (\<lambda>u. idOrKey u = k) (map snd m) = [last (filter (\<lambda>u. idOrKey u = k) updates)]"
    by simp
  from mergeLoop_values [OF m] have 3: "set (map snd m) \<subseteq> set updates" by simp
  from m 2 3 show ?thesis by (simp add: mergeUpdates_def)
qed

lemma mergeLoop_throws:
  "\<exists>u\<in>set us. nullish u \<Longrightarrow> mergeLoop gen n acc us = Inl TypeError"
  by (induction us arbitrary: n acc) auto

section \<open>Applying a batch\<close>

lemma entriesOf_total: "\<forall>r\<in>set rows. \<not> nullish r \<Longrightarrow> \<exists>es. entriesOf rows = Inr es"
  by (induction rows) auto

lemma applyUpdate_total: "\<not> nullish u \<Longrightarrow> \<exists>dm'. applyUpdate dm u = Inr dm'"
  by (simp add: applyUpdate_def split: option.splits)

lemma applyLoop_total: "\<forall>u\<in>set us. \<not> nullish u \<Longrightarrow> \<exists>dm'. applyLoop dm us = Inr dm'"
proof (induction us arbitrary: dm)
  case Nil
  show ?case by simp
next
  case (Cons u us)
  from Cons.prems applyUpdate_total [of u dm] obtain dm1 where "applyUpdate dm u = Inr dm1" by auto
  with Cons.IH [of dm1] Cons.prems show ?case by simp
qed

lemma applyUpdate_key:
  "applyUpdate dm u = Inr dm' \<Longrightarrow>
   map_of dm' k = (if idOrKey u = k
                   then Some (case map_of dm k of None \<Rightarrow> u | Some r \<Rightarrow> spread r u)
                   else map_of dm k)"
  by (auto simp: applyUpdate_def update_conv' split: if_splits option.splits)

lemma applyLoop_other:
  "applyLoop dm us = Inr dm' \<Longrightarrow> \<forall>u\<in>set us. idOrKey u \<noteq> k \<Longrightarrow> map_of dm' k = map_of dm k"
proof (induction us arbitrary: dm)
  case Nil
  then show ?case by simp
next
  case (Cons u us)
  from Cons.prems(1) obtain dm1 where 1: "applyUpdate dm u = Inr dm1" and 2: "applyLoop dm1 us = Inr dm'"
    by (auto split: sum.splits)
  from Cons.IH [OF 2] Cons.prems(2) applyUpdate_key [OF 1, of k] show ?case by simp
qed

lemma applyLoop_single:
  "applyLoop dm us = Inr dm' \<Longrightarrow> filter (\<lambda>u. idOrKey u = k) us = [m] \<Longrightarrow>
   map_of dm' k = Some (case map_of dm k of None \<Rightarrow> m | Some r \<Rightarrow> spread r m)"
proof (induction us arbitrary: dm)
  case Nil
  then show ?case by simp
next
  case (Cons u us)
  from Cons.prems(1) obtain dm1 where 1: "applyUpdate dm u = Inr dm1" and 2: "applyLoop dm1 us = Inr dm'"
    by (auto split: sum.splits)
  show ?case
  proof (cases "idOrKey u = k")
    case True
    with Cons.prems(2) have um: "u = m" and "filter (\<lambda>u. idOrKey u = k) us = []" by simp_all
    then have "\<forall>u\<in>set us. idOrKey u \<noteq> k" by (simp add: filter_empty_conv)
    from applyLoop_other [OF 2 this] applyUpdate_key [OF 1, of k] True um show ?thesis
      by (simp split: option.splits)
  next
    case False
    with Cons.prems(2) have "filter (\<lambda>u. idOrKey u = k) us = [m]" by simp
    from Cons.IH [OF 2 this] applyUpdate_key [OF 1, of k] False show ?thesis by simp
  qed
qed

lemma applyLoop_append:
  "applyLoop dm (xs @ ys) = (case applyLoop dm xs of Inl e \<Rightarrow> Inl e | Inr dm1 \<Rightarrow> applyLoop dm1 ys)"
  by (induction xs arbitrary: dm) (auto split: sum.splits)

lemma ownField_absent: "f \<notin> fst ` set (ownProps v) \<Longrightarrow> ownField v f = JUndefined"
proof -
  assume "f \<notin> fst ` set (ownProps v)"
  then have "map_of (rev (ownProps v)) f = None" by (simp add: map_of_eq_None_iff)
  then show ?thesis by (simp add: ownField_def)
qed

lemma truthy_defined: "truthy v \<Longrightarrow> v \<noteq> JUndefined"
  by auto

lemma idOrKey_spread:
  assumes "idOrKey r = idOrKey u"
  shows "idOrKey (spread r u) = idOrKey u"
proof (cases "''id'' \<in> fst ` set (ownProps u)")
  case True
  note hasId = True
  show ?thesis
  proof (cases "truthy (ownField u ''id'')")
    case True
    with hasId show ?thesis by (simp add: idOrKey_def ownField_spread)
  next
    case False
    note falsy = False
    show ?thesis
    proof (cases "''key'' \<in> fst ` set (ownProps u)")
      case True
      with hasId falsy show ?thesis by (simp add: idOrKey_def ownField_spread)
    next
      case False
      then have uk: "ownField u ''key'' = JUndefined" by (rule ownField_absent)
      with falsy have "idOrKey u = JUndefined" by (simp add: idOrKey_def)
      with assms have "idOrKey r = JUndefined" by simp
      then have "ownField r ''key'' = JUndefined"
        by (auto simp: idOrKey_def Let_def split: if_splits)
      with hasId falsy False uk show ?thesis by (simp add: idOrKey_def ownField_spread)
    qed
  qed
next
  case False
  note noId = False
  then have ui: "ownField u ''id'' = JUndefined" by (rule ownField_absent)
  then have iu: "idOrKey u = ownField u ''key''" by (simp add: idOrKey_def)
  show ?thesis
  proof (cases "truthy (ownField r ''id'')")
    case True
    with assms iu have "ownField r ''id'' = ownField u ''key''" by (simp add: idOrKey_def)
    with True noId iu show ?thesis by (simp add: idOrKey_def ownField_spread)
  next
    case False
    with assms iu have rk: "ownField r ''key'' = ownField u ''key''" by (simp add: idOrKey_def)
    with False noId iu show ?thesis by (simp add: idOrKey_def ownField_spread)
  qed
qed

lemma update_absent: "k \<notin> fst ` set al \<Longrightarrow> AList.update k v al = al @ [(k, v)]"
  by (induction al) auto

lemma update_present:
  "k \<notin> fst ` set pre \<Longrightarrow> AList.update k v (pre @ (k, w) # post) = pre @ (k, v) # post"
  by (induction pre) auto

lemma foldl_update_distinct:
  "distinct (map fst (acc @ es)) \<Longrightarrow> foldl (\<lambda>m (k, v). AList.update k v m) acc es = acc @ es"
proof (induction es arbitrary: acc)
  case Nil
  show ?case by simp
next
  case (Cons e es)
  obtain k v where e: "e = (k, v)" by (cases e)
  from Cons.prems e have "k \<notin> fst ` set acc" by auto
  then have u: "AList.update k v acc = acc @ [(k, v)]" by (rule update_absent)
  from Cons.prems e have "distinct (map fst ((acc @ [(k, v)]) @ es))" by simp
  from Cons.IH [OF this] u e show ?case by simp
qed

lemma newMap_distinct: "distinct (map fst es) \<Longrightarrow> newMap es = es"
  using foldl_update_distinct [of "[]" es] by (simp add: newMap_def)

lemma entriesOf_eq:
  "\<forall>r\<in>set rows. \<not> nullish r \<Longrightarrow> entriesOf rows = Inr (map (\<lambda>r. (idOrKey r, r)) rows)"
  by (induction rows) auto

lemma tableMap_eq:
  assumes "\<forall>r\<in>set rows. \<not> nullish r" and "distinct (map idOrKey rows)"
  shows "tableMap rows = Inr (map (\<lambda>r. (idOrKey r, r)) rows)"
proof -
  have "distinct (map fst (map (\<lambda>r. (idOrKey r, r)) rows))"
    using assms(2) by (simp add: comp_def)
  then show ?thesis
    using entriesOf_eq [OF assms(1)] by (simp add: tableMap_def newMap_distinct)
qed

lemma tableInv_rows:
  assumes "\<forall>r\<in>set rows. \<not> nullish r" and "distinct (map idOrKey rows)"
  shows "tableInv (map (\<lambda>r. (idOrKey r, r)) rows)"
  using assms by (auto simp: tableInv_def comp_def)

lemma tableInv_entries: "tableInv dm \<Longrightarrow> map (\<lambda>r. (idOrKey r, r)) (map snd dm) = dm"
  by (induction dm) (auto simp: tableInv_def)

lemma tableInv_keys: "tableInv dm \<Longrightarrow> map idOrKey (map snd dm) = map fst dm"
  by (induction dm) (auto simp: tableInv_def)

lemma tableInv_tableMap: "tableInv dm \<Longrightarrow> tableMap (map snd dm) = Inr dm"
proof -
  assume i: "tableInv dm"
  then have 1: "\<forall>r\<in>set (map snd dm). \<not> nullish r" by (auto simp: tableInv_def)
  from i have 2: "distinct (map idOrKey (map snd dm))"
    by (simp only: tableInv_keys) (simp add: tableInv_def)
  from tableMap_eq [OF 1 2] tableInv_entries [OF i] show ?thesis by simp
qed

lemma tableInv_keyed: "tableInv dm \<Longrightarrow> keyed k dm"
  by (auto simp: tableInv_def keyed_def)

lemma nullish_spread: "\<not> nullish (spread r u)"
  by (simp add: spread_def)

lemma tableInv_applyUpdate:
  assumes "tableInv dm" and "applyUpdate dm u = Inr dm'"
  shows "tableInv dm'"
proof -
  from assms(2) have nn: "\<not> nullish u" by (auto simp: applyUpdate_def split: if_splits)
  let ?k = "idOrKey u"
  show ?thesis
  proof (cases "map_of dm ?k")
    case None
    with assms(2) nn have d: "dm' = AList.update ?k u dm" by (simp add: applyUpdate_def)
    show ?thesis
      unfolding d tableInv_def
      using assms(1) set_update_subset [of ?k u dm] nn
      by (auto simp: tableInv_def distinct_update)
  next
    case (Some existing)
    with assms(2) nn have d: "dm' = AList.update ?k (spread existing u) dm"
      by (simp add: applyUpdate_def)
    from Some have "(?k, existing) \<in> set dm" by (rule map_of_SomeD)
    with assms(1) have "idOrKey existing = ?k" by (auto simp: tableInv_def)
    then have k: "idOrKey (spread existing u) = ?k" by (rule idOrKey_spread)
    show ?thesis
      unfolding d tableInv_def
      using assms(1) set_update_subset [of ?k "spread existing u" dm] k nullish_spread [of existing u]
      by (auto simp: tableInv_def distinct_update)
  qed
qed

lemma tableInv_applyLoop:
  "tableInv dm \<Longrightarrow> applyLoop dm us = Inr dm' \<Longrightarrow> tableInv dm'"
proof (induction us arbitrary: dm)
  case Nil
  then show ?case by simp
next
  case (Cons u us)
  from Cons.prems(2) obtain dm1 where 1: "applyUpdate dm u = Inr dm1" and 2: "applyLoop dm1 us = Inr dm'"
    by (auto split: sum.splits)
  from Cons.IH [OF tableInv_applyUpdate [OF Cons.prems(1) 1] 2] show ?case .
qed

lemma applyUpdate_prefix:
  "applyUpdate dm u = Inr dm' \<Longrightarrow> \<exists>ks. map fst dm' = map fst dm @ ks \<and> set ks \<subseteq> {idOrKey u}"
  by (auto simp: applyUpdate_def update_keys split: if_splits option.splits)

lemma applyLoop_prefix:
  "applyLoop dm us = Inr dm' \<Longrightarrow> \<exists>ks. map fst dm' = map fst dm @ ks \<and> set ks \<subseteq> idOrKey ` set us"
proof (induction us arbitrary: dm)
  case Nil
  then show ?case by simp
next
  case (Cons u us)
  from Cons.prems obtain dm1 where 1: "applyUpdate dm u = Inr dm1" and 2: "applyLoop dm1 us = Inr dm'"
    by (auto split: sum.splits)
  from applyUpdate_prefix [OF 1] obtain ks where a: "map fst dm1 = map fst dm @ ks" "set ks \<subseteq> {idOrKey u}"
    by blast
  from Cons.IH [OF 2] obtain ks' where b: "map fst dm' = map fst dm1 @ ks'" "set ks' \<subseteq> idOrKey ` set us"
    by blast
  from a b have "map fst dm' = map fst dm @ (ks @ ks')" "set (ks @ ks') \<subseteq> idOrKey ` set (u # us)"
    by auto
  then show ?case by blast
qed

lemma apply_single_absent:
  assumes "\<forall>r\<in>set rows. \<not> nullish r" and "distinct (map idOrKey rows)" and "\<not> nullish u"
    and "idOrKey u \<notin> idOrKey ` set rows"
  shows "applyUpdatesToData rows [u] = Inr (rows @ [u])"
proof -
  let ?dm = "map (\<lambda>r. (idOrKey r, r)) rows"
  have t: "tableMap rows = Inr ?dm" by (rule tableMap_eq [OF assms(1,2)])
  have nk: "idOrKey u \<notin> fst ` set ?dm" using assms(4) by (simp add: image_comp comp_def)
  then have "map_of ?dm (idOrKey u) = None" by (simp only: map_of_eq_None_iff) simp
  then have "applyUpdate ?dm u = Inr (AList.update (idOrKey u) u ?dm)"
    using assms(3) by (simp add: applyUpdate_def)
  then have "applyUpdate ?dm u = Inr (?dm @ [(idOrKey u, u)])"
    by (simp only: update_absent [OF nk])
  with t show ?thesis by (simp add: applyUpdatesToData_def comp_def)
qed

lemma apply_single_present:
  assumes "\<forall>r\<in>set rows. \<not> nullish r" and "distinct (map idOrKey rows)" and "\<not> nullish u"
    and "rows = pre @ existing # post" and "idOrKey existing = idOrKey u"
  shows "applyUpdatesToData rows [u] = Inr (pre @ spread existing u # post)"
proof -
  let ?e = "\<lambda>r. (idOrKey r, r)"
  let ?dm = "map ?e rows"
  have t: "tableMap rows = Inr ?dm" by (rule tableMap_eq [OF assms(1,2)])
  have dm: "?dm = map ?e pre @ (idOrKey u, existing) # map ?e post"
    using assms(4,5) by simp
  have nk: "idOrKey u \<notin> fst ` set (map ?e pre)"
    using assms(2,4,5) by (auto simp: image_comp comp_def)
  then have "map_of (map ?e pre) (idOrKey u) = None" by (simp only: map_of_eq_None_iff) simp
  then have m: "map_of ?dm (idOrKey u) = Some existing"
    by (simp only: dm map_of_append) (simp add: map_add_def)
  have "applyUpdate ?dm u = Inr (AList.update (idOrKey u) (spread existing u) ?dm)"
    using assms(3) m by (simp add: applyUpdate_def)
  then have "applyUpdate ?dm u
      = Inr (map ?e pre @ (idOrKey u, spread existing u) # map ?e post)"
    by (simp only: dm update_present [OF nk])
  with t show ?thesis by (simp add: applyUpdatesToData_def comp_def)
qed

lemma apply_batch_table:
  assumes "\<forall>r\<in>set rows. \<not> nullish r" and "distinct (map idOrKey rows)"
    and "applyUpdatesToData rows before = Inr tbl"
  shows "\<exists>dm1. applyLoop (map (\<lambda>r. (idOrKey r, r)) rows) before = Inr dm1 \<and> tbl = map snd dm1
      \<and> tableInv dm1 \<and> tableMap tbl = Inr dm1
      \<and> (\<exists>ks. map idOrKey tbl = map idOrKey rows @ ks \<and> set ks \<subseteq> idOrKey ` set before)"
proof -
  let ?dm = "map (\<lambda>r. (idOrKey r, r)) rows"
  have t: "tableMap rows = Inr ?dm" by (rule tableMap_eq [OF assms(1,2)])
  with assms(3) obtain dm1 where a: "applyLoop ?dm before = Inr dm1" and b: "tbl = map snd dm1"
    by (auto simp: applyUpdatesToData_def split: sum.splits)
  have i: "tableInv dm1" by (rule tableInv_applyLoop [OF tableInv_rows [OF assms(1,2)] a])
  from applyLoop_prefix [OF a] obtain ks
    where "map fst dm1 = map fst ?dm @ ks" "set ks \<subseteq> idOrKey ` set before" by blast
  then have "map idOrKey tbl = map idOrKey rows @ ks \<and> set ks \<subseteq> idOrKey ` set before"
    using tableInv_keys [OF i] b by (simp add: comp_def)
  with a b i tableInv_tableMap [OF i] show ?thesis by blast
qed

text \<open>
  C5. For every table and every batch, each message of the batch is applied to the table as
  the messages before it have left it. The key of a message is its \<open>id\<close> when JavaScript
  treats that as true, and its \<open>key\<close> otherwise. When the table has no row of the
  message's key, the message itself becomes a new row, after the rows the table has; when
  it has one, that row becomes the existing row overwritten one level deep, at the place
  of the existing row: a field the message names has the message's value, whatever the
  row held there and also when both hold nested structures, and a field the message does
  not name keeps the existing value. All other rows stay as they are. The table has one
  row for each key, no row or message is \<open>undefined\<close> or \<open>null\<close>, and the keys are
  strings, numbers or other primitive values; the table keeps these properties, so that
  the rule applies to the next message again.
\<close>

theorem apply_update_shallow:
  assumes "\<forall>r\<in>set rows. \<not> nullish r \<and> primitive (idOrKey r)" and "distinct (map idOrKey rows)"
    and "\<forall>u\<in>set before. primitive (idOrKey u)" and "applyUpdatesToData rows before = Inr tbl"
    and "\<not> nullish update" and "primitive (idOrKey update)"
  shows "idOrKey update
       = (if truthy (ownField update ''id'') then ownField update ''id''
          else ownField update ''key'')
    \<and> applyUpdatesToData rows (before @ [update]) = applyUpdatesToData tbl [update]
    \<and> distinct (map idOrKey tbl)
    \<and> (\<forall>r\<in>set tbl. \<not> nullish r \<and> primitive (idOrKey r))
    \<and> (idOrKey update \<notin> idOrKey ` set tbl
          \<longrightarrow> applyUpdatesToData tbl [update] = Inr (tbl @ [update]))
    \<and> (\<forall>pre existing post.
          tbl = pre @ existing # post \<and> idOrKey existing = idOrKey update
          \<longrightarrow> (\<exists>row. applyUpdatesToData tbl [update] = Inr (pre @ row # post)
                 \<and> idOrKey row = idOrKey update
                 \<and> (\<forall>f. ownField row f
                       = (if f \<in> fst ` set (ownProps update) then ownField update f
                          else ownField existing f))))"
proof -
  from assms(1) have nn: "\<forall>r\<in>set rows. \<not> nullish r" by blast
  from apply_batch_table [OF nn assms(2,4)] obtain dm1 ks
    where a: "applyLoop (map (\<lambda>r. (idOrKey r, r)) rows) before = Inr dm1"
      and b: "tbl = map snd dm1" and i: "tableInv dm1" and t: "tableMap tbl = Inr dm1"
      and ks: "map idOrKey tbl = map idOrKey rows @ ks" "set ks \<subseteq> idOrKey ` set before"
    by blast
  have 1: "idOrKey update
       = (if truthy (ownField update ''id'') then ownField update ''id''
          else ownField update ''key'')"
    by (simp add: idOrKey_def)
  have "applyUpdatesToData rows (before @ [update])
      = (case applyLoop dm1 [update] of Inl e \<Rightarrow> Inl e | Inr d \<Rightarrow> Inr (map snd d))"
    using tableMap_eq [OF nn assms(2)] a by (simp add: applyUpdatesToData_def applyLoop_append)
  then have 2: "applyUpdatesToData rows (before @ [update]) = applyUpdatesToData tbl [update]"
    using t by (simp add: applyUpdatesToData_def)
  have "map idOrKey tbl = map fst dm1" using tableInv_keys [OF i] b by simp
  moreover have "distinct (map fst dm1)" using i by (simp add: tableInv_def)
  ultimately have 3: "distinct (map idOrKey tbl)" by simp
  have tn: "\<forall>r\<in>set tbl. \<not> nullish r" using i b by (auto simp: tableInv_def)
  have "set (map idOrKey tbl) \<subseteq> idOrKey ` set rows \<union> idOrKey ` set before"
    using ks by auto
  then have tp: "\<forall>r\<in>set tbl. primitive (idOrKey r)"
    using assms(1,3) by auto
  have 5: "idOrKey update \<notin> idOrKey ` set tbl
          \<longrightarrow> applyUpdatesToData tbl [update] = Inr (tbl @ [update])"
    using apply_single_absent [OF tn 3 assms(5)] by blast
  have 6: "\<forall>pre existing post.
          tbl = pre @ existing # post \<and> idOrKey existing = idOrKey update
          \<longrightarrow> (\<exists>row. applyUpdatesToData tbl [update] = Inr (pre @ row # post)
                 \<and> idOrKey row = idOrKey update
                 \<and> (\<forall>f. ownField row f
                       = (if f \<in> fst ` set (ownProps update) then ownField update f
                          else ownField existing f)))"
  proof (intro allI impI)
    fix pre existing post
    assume h: "tbl = pre @ existing # post \<and> idOrKey existing = idOrKey update"
    then have "applyUpdatesToData tbl [update] = Inr (pre @ spread existing update # post)"
      using apply_single_present [OF tn 3 assms(5)] by blast
    moreover have "idOrKey (spread existing update) = idOrKey update"
      using h by (simp add: idOrKey_spread)
    ultimately show "\<exists>row. applyUpdatesToData tbl [update] = Inr (pre @ row # post)
                 \<and> idOrKey row = idOrKey update
                 \<and> (\<forall>f. ownField row f
                       = (if f \<in> fst ` set (ownProps update) then ownField update f
                          else ownField existing f))"
      using ownField_spread [of existing update] by blast
  qed
  from 1 2 3 tn tp 5 6 show ?thesis by blast
qed

theorem apply_update_shallow_witness:
  "applyUpdatesToData [rowM, row2] [row3] = Inr [rowM, row2, row3]
   \<and> applyUpdatesToData [rowM, row2] ([row3] @ [updM])
       = Inr [JObj [(''key'', JStr ''1''), (''price'', JNum 10), (''meta'', JObj [(''a'', JNum 5)])],
              row2, row3]
   \<and> idOrKey row3 = JStr ''3''
   \<and> (\<exists>row. applyUpdatesToData [rowM, row2, row3] [updM] = Inr ([] @ row # [row2, row3])
         \<and> idOrKey row = JStr ''1''
         \<and> ownField row ''price'' = JNum 10
         \<and> ownField row ''meta'' = JObj [(''a'', JNum 5)])"
proof -
  have k: "idOrKey rowM = JStr ''1''" "idOrKey row2 = JStr ''2''" "idOrKey row3 = JStr ''3''"
    "idOrKey updM = JStr ''1''"
    by (simp_all add: idOrKey_def ownField_def rowM_def row2_def row3_def updM_def)
  have n: "\<not> nullish rowM" "\<not> nullish row2" "\<not> nullish row3" "\<not> nullish updM"
    by (simp_all add: rowM_def row2_def row3_def updM_def)
  have h1: "\<forall>r\<in>set [rowM, row2]. \<not> nullish r \<and> primitive (idOrKey r)" by (simp add: k n)
  have h2: "distinct (map idOrKey [rowM, row2])" by (simp add: k)
  have h3: "\<forall>u\<in>set ([] :: jsval list). primitive (idOrKey u)" by simp
  have h4: "applyUpdatesToData [rowM, row2] [] = Inr [rowM, row2]"
    by (simp add: applyUpdatesToData_def tableMap_def newMap_def k n)
  have h5: "\<not> nullish row3" by (rule n)
  have h6: "primitive (idOrKey row3)" by (simp add: k)
  have absent: "idOrKey row3 \<notin> idOrKey ` set [rowM, row2]" by (simp add: k)
  from apply_update_shallow [OF h1 h2 h3 h4 h5 h6] absent
  have a: "applyUpdatesToData [rowM, row2] [row3] = Inr [rowM, row2, row3]" by simp
  have g3: "\<forall>u\<in>set [row3]. primitive (idOrKey u)" by (simp add: k)
  have g5: "\<not> nullish updM" by (rule n)
  have g6: "primitive (idOrKey updM)" by (simp add: k)
  note t = apply_update_shallow [OF h1 h2 g3 a g5 g6]
  from t have b: "applyUpdatesToData [rowM, row2] ([row3] @ [updM])
      = applyUpdatesToData [rowM, row2, row3] [updM]" by blast
  from t have "\<forall>pre existing post.
          [rowM, row2, row3] = pre @ existing # post \<and> idOrKey existing = idOrKey updM
          \<longrightarrow> (\<exists>row. applyUpdatesToData [rowM, row2, row3] [updM] = Inr (pre @ row # post)
                 \<and> idOrKey row = idOrKey updM
                 \<and> (\<forall>f. ownField row f
                       = (if f \<in> fst ` set (ownProps updM) then ownField updM f
                          else ownField existing f)))" by blast
  then have "[rowM, row2, row3] = [] @ rowM # [row2, row3] \<and> idOrKey rowM = idOrKey updM
          \<longrightarrow> (\<exists>row. applyUpdatesToData [rowM, row2, row3] [updM] = Inr ([] @ row # [row2, row3])
                 \<and> idOrKey row = idOrKey updM
                 \<and> (\<forall>f. ownField row f
                       = (if f \<in> fst ` set (ownProps updM) then ownField updM f
                          else ownField rowM f)))" by blast
  then obtain row where r: "applyUpdatesToData [rowM, row2, row3] [updM] = Inr ([] @ row # [row2, row3])"
      "idOrKey row = JStr ''1''"
      "\<forall>f. ownField row f
                       = (if f \<in> fst ` set (ownProps updM) then ownField updM f
                          else ownField rowM f)"
    by (auto simp: k)
  from r(3) have f: "ownField row ''price'' = JNum 10" "ownField row ''meta'' = JObj [(''a'', JNum 5)]"
    by (simp_all add: ownField_def rowM_def updM_def)
  have c: "applyUpdatesToData [rowM, row2, row3] [updM]
       = Inr [JObj [(''key'', JStr ''1''), (''price'', JNum 10), (''meta'', JObj [(''a'', JNum 5)])],
              row2, row3]"
    by (simp add: applyUpdatesToData_def tableMap_def applyUpdate_def newMap_def spread_def k n)
       (simp add: rowM_def updM_def)
  from a b c k(3) r(1,2) f show ?thesis by auto
qed

text \<open>
  C2. The code at an input at which it breaks the claim: two messages with the key 0 in one
  window. \<open>mergeUpdates\<close> takes the key 0 for no key and keeps both messages under
  generated keys, so both reach the grid; \<open>applyUpdatesToData\<close>, which does take 0 for a
  key, then writes the second over the first, and the row that results holds the field
  of the first message as well as that of the last, where the claim has the last message
  alone.
\<close>

theorem falsy_key_both_survive:
  "mergeUpdates stamps [z1, z2] = Inr [z1, z2]
   \<and> applyUpdatesToData [] [z1, z2] = Inr [JObj [(''key'', JNum 0), (''a'', JNum 1), (''b'', JNum 2)]]
   \<and> applyUpdatesToData [] [z1, z2] \<noteq> Inr [z2]
   \<and> snd (processBatchUpdates stamps comp0 [z1, z2])
       = \<lparr>gridApi = Some (grid0\<lparr>calls := [ApplyTransaction (TxUpdate [z1, z2])]\<rparr>),
          rowData = [JObj [(''key'', JNum 0), (''a'', JNum 1), (''b'', JNum 2)]]\<rparr>"
  by (simp add: mergeUpdates_def applyUpdatesToData_def tableMap_def applyUpdate_def newMap_def
      spread_def idOrKey_def ownField_def processBatchUpdates_def updateRows_def called_def
      comp0_def grid0_def z1_def z2_def stamps_def)

lemma flush_result:
  assumes msgs: "\<forall>u\<in>set updates. \<not> nullish u"
    and rows: "\<forall>r\<in>set rows. \<not> nullish r" "distinct (map idOrKey rows)"
    and k: "truthy k" "\<forall>n. JNum (gen n) \<noteq> k"
    and some: "filter (\<lambda>u. idOrKey u = k) updates \<noteq> []"
  shows "\<exists>merged data row.
      mergeUpdates gen updates = Inr merged
    \<and> set merged \<subseteq> set updates
    \<and> applyUpdatesToData rows merged = Inr data
    \<and> filter (\<lambda>u. idOrKey u = k) merged = [last (filter (\<lambda>u. idOrKey u = k) updates)]
    \<and> filter (\<lambda>r. idOrKey r = k) data = [row]
    \<and> row = (case filter (\<lambda>r. idOrKey r = k) rows of
               [] \<Rightarrow> last (filter (\<lambda>u. idOrKey u = k) updates)
             | existing # others \<Rightarrow> spread existing (last (filter (\<lambda>u. idOrKey u = k) updates)))
    \<and> map idOrKey rows = take (length rows) (map idOrKey data)"
proof -
  let ?m = "last (filter (\<lambda>u. idOrKey u = k) updates)"
  let ?dm = "map (\<lambda>r. (idOrKey r, r)) rows"
  from merge_last_wins [OF msgs k some] obtain merged
    where m: "mergeUpdates gen updates = Inr merged" and sub: "set merged \<subseteq> set updates"
      and f: "filter (\<lambda>u. idOrKey u = k) merged = [?m]"
    by blast
  from sub msgs have "\<forall>u\<in>set merged. \<not> nullish u" by blast
  from applyLoop_total [OF this, of ?dm] obtain dm1 where a: "applyLoop ?dm merged = Inr dm1" by blast
  have d: "applyUpdatesToData rows merged = Inr (map snd dm1)"
    using tableMap_eq [OF rows] a by (simp add: applyUpdatesToData_def)
  have i0: "tableInv ?dm" by (rule tableInv_rows [OF rows])
  have i1: "tableInv dm1" by (rule tableInv_applyLoop [OF i0 a])
  have r: "map_of dm1 k = Some (case map_of ?dm k of None \<Rightarrow> ?m | Some r \<Rightarrow> spread r ?m)"
    by (rule applyLoop_single [OF a f])
  have f1: "filter (\<lambda>r. idOrKey r = k) (map snd dm1)
      = [case map_of ?dm k of None \<Rightarrow> ?m | Some r \<Rightarrow> spread r ?m]"
    using keyed_filter [OF tableInv_keyed [OF i1], of k] r by simp
  have "filter (\<lambda>r. idOrKey r = k) (map snd ?dm)
      = (case map_of ?dm k of None \<Rightarrow> [] | Some v \<Rightarrow> [v])"
    by (rule keyed_filter [OF tableInv_keyed [OF i0]])
  then have f0: "filter (\<lambda>r. idOrKey r = k) rows
      = (case map_of ?dm k of None \<Rightarrow> [] | Some v \<Rightarrow> [v])"
    by (simp add: comp_def)
  have row: "(case map_of ?dm k of None \<Rightarrow> ?m | Some r \<Rightarrow> spread r ?m)
      = (case filter (\<lambda>r. idOrKey r = k) rows of [] \<Rightarrow> ?m | existing # others \<Rightarrow> spread existing ?m)"
    unfolding f0 by (simp split: option.splits)
  from applyLoop_prefix [OF a] obtain ks where "map fst dm1 = map fst ?dm @ ks" by blast
  then have "map idOrKey (map snd dm1) = map idOrKey rows @ ks"
    using tableInv_keys [OF i1] by (simp add: comp_def)
  then have p: "map idOrKey rows = take (length rows) (map idOrKey (map snd dm1))" by simp
  from m sub d f f1 row p show ?thesis by (simp del: map_map)
qed

text \<open>
  C1, as the claim states it, fails: after an update and then a removal for the key 2 in
  one window, the row of the key 2 is still in the table, with the fields of the removal
  message written over it, and the grid has received one update transaction that holds
  the removal message; with the removal first and the update second, the update is
  applied.
\<close>

theorem removal_counterexample:
  "processBatchUpdates stamps (comp0\<lparr>rowData := [row2]\<rparr>) [updB, remB]
     = (None,
        \<lparr>gridApi = Some (grid0\<lparr>calls := [ApplyTransaction (TxUpdate [remB])]\<rparr>),
         rowData = [JObj [(''key'', JStr ''2''), (''price'', JNum 7), (''op'', JStr ''remove'')]]\<rparr>)
   \<and> processBatchUpdates stamps (comp0\<lparr>rowData := [row2]\<rparr>) [remB, updB]
     = (None,
        \<lparr>gridApi = Some (grid0\<lparr>calls := [ApplyTransaction (TxUpdate [updB])]\<rparr>),
         rowData = [JObj [(''key'', JStr ''2''), (''price'', JNum 7), (''op'', JStr ''update''),
                          (''fields'', JObj [(''price'', JNum 5)])]]\<rparr>)"
  by (simp add: mergeUpdates_def applyUpdatesToData_def tableMap_def applyUpdate_def newMap_def spread_def
      idOrKey_def ownField_def processBatchUpdates_def updateRows_def called_def comp0_def grid0_def
      row2_def updB_def remB_def)

text \<open>
  C1, amended. Take a flush with a ready grid, of a batch and a table in which no message
  and no row is \<open>undefined\<close> or \<open>null\<close>, all keys are primitive values and the table has
  one row for each key. For every key that JavaScript treats as true, that no generated
  key equals and that has messages in the batch, whether updates or removals, the
  message that arrived last for the key is the one that is applied, whatever its \<open>op\<close>:
  it is the only message of the key in the one update transaction the grid receives, and
  after the flush the table has exactly one row of the key, which has the value of that
  message in every field the message names and the value of the row the table had for
  the key, if it had one, in every other field. No row is deleted: the rows the table
  had are still there after the flush, in their places and under their keys.
\<close>

theorem removal_is_merged_as_update:
  assumes "gridApi c = Some api"
    and "\<forall>u\<in>set updates. \<not> nullish u \<and> primitive (idOrKey u)"
    and "\<forall>r\<in>set (rowData c). \<not> nullish r \<and> primitive (idOrKey r)"
    and "distinct (map idOrKey (rowData c))"
    and "truthy k" and "\<forall>n. JNum (gen n) \<noteq> k"
    and "filter (\<lambda>u. idOrKey u = k) updates \<noteq> []"
  shows "\<exists>merged data row.
      mergeUpdates gen updates = Inr merged
    \<and> applyUpdatesToData (rowData c) merged = Inr data
    \<and> processBatchUpdates gen c updates
        = (None, c\<lparr>gridApi := Some (api\<lparr>calls := calls api @ [ApplyTransaction (TxUpdate merged)]\<rparr>),
                    rowData := data\<rparr>)
    \<and> filter (\<lambda>u. idOrKey u = k) merged = [last (filter (\<lambda>u. idOrKey u = k) updates)]
    \<and> filter (\<lambda>r. idOrKey r = k) data = [row]
    \<and> (\<forall>f. ownField row f
          = (if f \<in> fst ` set (ownProps (last (filter (\<lambda>u. idOrKey u = k) updates)))
             then ownField (last (filter (\<lambda>u. idOrKey u = k) updates)) f
             else (case filter (\<lambda>r. idOrKey r = k) (rowData c) of
                     [] \<Rightarrow> JUndefined
                   | existing # others \<Rightarrow> ownField existing f)))
    \<and> map idOrKey (rowData c) = take (length (rowData c)) (map idOrKey data)"
proof -
  let ?m = "last (filter (\<lambda>u. idOrKey u = k) updates)"
  from assms(2) have msgs: "\<forall>u\<in>set updates. \<not> nullish u" by blast
  from assms(3) have rows: "\<forall>r\<in>set (rowData c). \<not> nullish r" by blast
  from flush_result [OF msgs rows assms(4,5,6,7)] obtain merged data row
    where m: "mergeUpdates gen updates = Inr merged"
      and d: "applyUpdatesToData (rowData c) merged = Inr data"
      and f: "filter (\<lambda>u. idOrKey u = k) merged = [?m]"
      and g: "filter (\<lambda>r. idOrKey r = k) data = [row]"
      and r: "row = (case filter (\<lambda>r. idOrKey r = k) (rowData c) of
               [] \<Rightarrow> ?m | existing # others \<Rightarrow> spread existing ?m)"
      and p: "map idOrKey (rowData c) = take (length (rowData c)) (map idOrKey data)"
    by blast
  have 1: "processBatchUpdates gen c updates
        = (None, c\<lparr>gridApi := Some (api\<lparr>calls := calls api @ [ApplyTransaction (TxUpdate merged)]\<rparr>),
                    rowData := data\<rparr>)"
    using assms(1) m d by (simp add: processBatchUpdates_def updateRows_def called_def)
  have 2: "\<forall>f. ownField row f
          = (if f \<in> fst ` set (ownProps ?m) then ownField ?m f
             else (case filter (\<lambda>r. idOrKey r = k) (rowData c) of
                     [] \<Rightarrow> JUndefined
                   | existing # others \<Rightarrow> ownField existing f))"
    unfolding r by (simp add: ownField_spread ownField_absent split: list.splits)
  from m d 1 f g 2 p show ?thesis by blast
qed

theorem removal_is_merged_as_update_witness:
  "\<exists>row. processBatchUpdates stamps (comp0\<lparr>rowData := [row3, row2]\<rparr>) [updB, m10, remB]
      = (None, comp0\<lparr>rowData := [row3, row2],
                      gridApi := Some (grid0\<lparr>calls := calls grid0 @ [ApplyTransaction (TxUpdate [remB, m10])]\<rparr>),
                      rowData := [row3, row, m10]\<rparr>)
    \<and> row = JObj [(''key'', JStr ''2''), (''price'', JNum 7), (''op'', JStr ''remove'')]
    \<and> ownField row ''op'' = JStr ''remove''
    \<and> ownField row ''price'' = JNum 7
    \<and> map idOrKey [row3, row2] = take 2 (map idOrKey [row3, row, m10])"
proof -
  let ?c = "comp0\<lparr>rowData := [row3, row2]\<rparr>"
  have k: "idOrKey row3 = JStr ''3''" "idOrKey row2 = JStr ''2''" "idOrKey updB = JStr ''2''"
    "idOrKey remB = JStr ''2''" "idOrKey m10 = JStr ''1''"
    by (simp_all add: idOrKey_def ownField_def row3_def row2_def updB_def remB_def m10_def)
  have n: "\<not> nullish row3" "\<not> nullish row2" "\<not> nullish updB" "\<not> nullish remB" "\<not> nullish m10"
    by (simp_all add: row3_def row2_def updB_def remB_def m10_def)
  have h1: "gridApi ?c = Some grid0" by (simp add: comp0_def)
  have h2: "\<forall>u\<in>set [updB, m10, remB]. \<not> nullish u \<and> primitive (idOrKey u)" by (simp add: k n)
  have h3: "\<forall>r\<in>set (rowData ?c). \<not> nullish r \<and> primitive (idOrKey r)" by (simp add: k n)
  have h4: "distinct (map idOrKey (rowData ?c))" by (simp add: k)
  have h5: "truthy (JStr ''2'')" by simp
  have h6: "\<forall>n. JNum (stamps n) \<noteq> JStr ''2''" by simp
  have l: "filter (\<lambda>u. idOrKey u = JStr ''2'') [updB, m10, remB] = [updB, remB]" by (simp add: k)
  then have h7: "filter (\<lambda>u. idOrKey u = JStr ''2'') [updB, m10, remB] \<noteq> []" by simp
  have e: "processBatchUpdates stamps ?c [updB, m10, remB]
      = (None, ?c\<lparr>gridApi := Some (grid0\<lparr>calls := calls grid0 @ [ApplyTransaction (TxUpdate [remB, m10])]\<rparr>),
                  rowData := [row3, JObj [(''key'', JStr ''2''), (''price'', JNum 7), (''op'', JStr ''remove'')], m10]\<rparr>)"
    by (simp add: mergeUpdates_def applyUpdatesToData_def tableMap_def applyUpdate_def newMap_def
        spread_def processBatchUpdates_def updateRows_def called_def comp0_def k n)
       (simp add: row2_def remB_def)
  from removal_is_merged_as_update [OF h1 h2 h3 h4 h5 h6 h7, unfolded l] obtain merged data row
    where a: "processBatchUpdates stamps ?c [updB, m10, remB]
        = (None, ?c\<lparr>gridApi := Some (grid0\<lparr>calls := calls grid0 @ [ApplyTransaction (TxUpdate merged)]\<rparr>),
                    rowData := data\<rparr>)"
      and g: "filter (\<lambda>r. idOrKey r = JStr ''2'') data = [row]"
      and f: "\<forall>f. ownField row f
          = (if f \<in> fst ` set (ownProps remB) then ownField remB f
             else (case filter (\<lambda>r. idOrKey r = JStr ''2'') (rowData ?c) of
                     [] \<Rightarrow> JUndefined
                   | existing # others \<Rightarrow> ownField existing f))"
      and p: "map idOrKey (rowData ?c) = take (length (rowData ?c)) (map idOrKey data)"
    by auto
  let ?r = "JObj [(''key'', JStr ''2''), (''price'', JNum 7), (''op'', JStr ''remove'')]"
  from a e have data: "data = [row3, ?r, m10]"
    by (simp add: comp0_def)
  have kr: "idOrKey ?r = JStr ''2''" by (simp add: idOrKey_def ownField_def)
  from g have row: "row = ?r" unfolding data by (simp add: k kr)
  from f have "ownField row ''op'' = JStr ''remove''" "ownField row ''price'' = JNum 7"
    by (simp_all add: k) (simp_all add: ownField_def remB_def row2_def)
  with e row p data show ?thesis by simp
qed

section \<open>The grid calls of a flush\<close>

text \<open>
  C7, as the claim states it, fails: the flush of scenario A, whose row is new, reaches the
  grid as one update transaction; no add transaction is issued.
\<close>

theorem update_only_counterexample:
  "processBatchUpdates stamps comp0 [m10, m12]
     = (None, \<lparr>gridApi = Some (grid0\<lparr>calls := [ApplyTransaction (TxUpdate [m12])]\<rparr>),
               rowData = [m12]\<rparr>)
   \<and> calls (the (gridApi (snd (processBatchUpdates stamps comp0 [m10, m12]))))
       \<noteq> [ApplyTransaction (TxAdd [m12])]"
  by (simp add: mergeUpdates_def applyUpdatesToData_def tableMap_def applyUpdate_def newMap_def
      spread_def idOrKey_def ownField_def processBatchUpdates_def updateRows_def called_def
      comp0_def grid0_def m10_def m12_def)

text \<open>
  C7, amended. For every flush of a batch whose messages have primitive keys, with a ready
  grid: when no message of the batch is \<open>undefined\<close> or \<open>null\<close>, the grid receives exactly
  one call, a single \<open>applyTransaction\<close> whose \<open>update\<close> list is the merged batch,
  whether the rows are new or existing and whatever the messages' \<open>op\<close>; \<open>addRows\<close> and
  \<open>removeRows\<close> are not called. When a message is \<open>undefined\<close> or \<open>null\<close>, the flush
  throws before the grid is called, and the grid receives no call. When the grid is not
  ready the flush does nothing. It is at most one transaction for each flush, never one
  call for each message.
\<close>

theorem one_update_transaction_per_flush:
  assumes "gridApi c = Some api" and "\<forall>u\<in>set updates. primitive (idOrKey u)"
  shows "((\<forall>u\<in>set updates. \<not> nullish u)
           \<longrightarrow> (\<exists>merged. mergeUpdates gen updates = Inr merged
                  \<and> set merged \<subseteq> set updates
                  \<and> gridApi (snd (processBatchUpdates gen c updates))
                      = Some (api\<lparr>calls := calls api @ [ApplyTransaction (TxUpdate merged)]\<rparr>)))
     \<and> ((\<exists>u\<in>set updates. nullish u)
           \<longrightarrow> processBatchUpdates gen c updates = (Some TypeError, c))
     \<and> processBatchUpdates gen (c\<lparr>gridApi := None\<rparr>) updates = (None, c\<lparr>gridApi := None\<rparr>)"
proof -
  have 1: "(\<forall>u\<in>set updates. \<not> nullish u)
           \<longrightarrow> (\<exists>merged. mergeUpdates gen updates = Inr merged
                  \<and> set merged \<subseteq> set updates
                  \<and> gridApi (snd (processBatchUpdates gen c updates))
                      = Some (api\<lparr>calls := calls api @ [ApplyTransaction (TxUpdate merged)]\<rparr>))"
  proof
    assume nn: "\<forall>u\<in>set updates. \<not> nullish u"
    from mergeLoop_total [OF nn] obtain m where l: "mergeLoop gen 0 [] updates = Inr m" by blast
    then have m: "mergeUpdates gen updates = Inr (map snd m)" by (simp add: mergeUpdates_def)
    from mergeLoop_values [OF l] have s: "set (map snd m) \<subseteq> set updates" by simp
    have "gridApi (snd (processBatchUpdates gen c updates))
         = Some (api\<lparr>calls := calls api @ [ApplyTransaction (TxUpdate (map snd m))]\<rparr>)"
      using assms(1) m
      by (simp add: processBatchUpdates_def updateRows_def called_def Let_def split: sum.splits)
    with m s show "\<exists>merged. mergeUpdates gen updates = Inr merged
                  \<and> set merged \<subseteq> set updates
                  \<and> gridApi (snd (processBatchUpdates gen c updates))
                      = Some (api\<lparr>calls := calls api @ [ApplyTransaction (TxUpdate merged)]\<rparr>)"
      by blast
  qed
  have 2: "(\<exists>u\<in>set updates. nullish u)
           \<longrightarrow> processBatchUpdates gen c updates = (Some TypeError, c)"
  proof
    assume "\<exists>u\<in>set updates. nullish u"
    from mergeLoop_throws [OF this] have "mergeUpdates gen updates = Inl TypeError"
      by (simp add: mergeUpdates_def)
    with assms(1) show "processBatchUpdates gen c updates = (Some TypeError, c)"
      by (simp add: processBatchUpdates_def)
  qed
  have 3: "processBatchUpdates gen (c\<lparr>gridApi := None\<rparr>) updates = (None, c\<lparr>gridApi := None\<rparr>)"
    by (simp add: processBatchUpdates_def)
  from 1 2 3 show ?thesis by blast
qed

theorem one_update_transaction_per_flush_witness:
  "gridApi (snd (processBatchUpdates stamps (comp0\<lparr>rowData := [row2]\<rparr>) [m10, remB, m12]))
     = Some (grid0\<lparr>calls := calls grid0 @ [ApplyTransaction (TxUpdate [m12, remB])]\<rparr>)
   \<and> processBatchUpdates stamps (comp0\<lparr>rowData := [row2]\<rparr>) [m10, JUndefined]
     = (Some TypeError, comp0\<lparr>rowData := [row2]\<rparr>)
   \<and> processBatchUpdates stamps (comp0\<lparr>rowData := [row2], gridApi := None\<rparr>) [m10, remB, m12]
     = (None, comp0\<lparr>rowData := [row2], gridApi := None\<rparr>)"
proof -
  let ?c = "comp0\<lparr>rowData := [row2]\<rparr>"
  have k: "idOrKey m10 = JStr ''1''" "idOrKey m12 = JStr ''1''" "idOrKey remB = JStr ''2''"
    "idOrKey JUndefined = JUndefined"
    by (simp_all add: idOrKey_def ownField_def m10_def m12_def remB_def)
  have n: "\<not> nullish m10" "\<not> nullish m12" "\<not> nullish remB"
    by (simp_all add: m10_def m12_def remB_def)
  have h1: "gridApi ?c = Some grid0" by (simp add: comp0_def)
  have h2: "\<forall>u\<in>set [m10, remB, m12]. primitive (idOrKey u)" by (simp add: k)
  have h3: "\<forall>u\<in>set [m10, remB, m12]. \<not> nullish u" by (simp add: n)
  have g2: "\<forall>u\<in>set [m10, JUndefined]. primitive (idOrKey u)" by (simp add: k)
  have g3: "\<exists>u\<in>set [m10, JUndefined]. nullish u" by simp
  have e: "mergeUpdates stamps [m10, remB, m12] = Inr [m12, remB]"
    by (simp add: mergeUpdates_def k n)
  from one_update_transaction_per_flush [OF h1 h2, of stamps] h3 e
  have a: "gridApi (snd (processBatchUpdates stamps ?c [m10, remB, m12]))
     = Some (grid0\<lparr>calls := calls grid0 @ [ApplyTransaction (TxUpdate [m12, remB])]\<rparr>)"
    by auto
  from one_update_transaction_per_flush [OF h1 h2, of stamps]
  have c: "processBatchUpdates stamps (?c\<lparr>gridApi := None\<rparr>) [m10, remB, m12]
      = (None, ?c\<lparr>gridApi := None\<rparr>)" by blast
  from one_update_transaction_per_flush [OF h1 g2, of stamps] g3
  have b: "processBatchUpdates stamps ?c [m10, JUndefined] = (Some TypeError, ?c)" by blast
  from a b c show ?thesis by simp
qed

section \<open>Batching in time\<close>

lemma debounceTime_times:
  "set (debounceTime timerFirst d evs) \<subseteq> (\<lambda>e. (fst e + d, snd e)) ` set evs"
  by (induction timerFirst d evs rule: debounceTime.induct) auto

lemma debounceTime_sorted:
  "sorted (map fst evs) \<Longrightarrow> sorted (map fst (debounceTime timerFirst d evs))"
proof (induction timerFirst d evs rule: debounceTime.induct)
  case (1 timerFirst d)
  show ?case by simp
next
  case (2 timerFirst d t v)
  show ?case by simp
next
  case (3 timerFirst d t v t' v' rest)
  from "3.prems" have s: "sorted (map fst ((t', v') # rest))" by simp
  show ?case
  proof (cases "t' < t + d \<or> (t' = t + d \<and> \<not> timerFirst t')")
    case True
    then have eq: "debounceTime timerFirst d ((t, v) # (t', v') # rest)
        = debounceTime timerFirst d ((t', v') # rest)"
      by simp
    show ?thesis unfolding eq by (rule "3.IH"(1) [OF True s])
  next
    case False
    then have eq: "debounceTime timerFirst d ((t, v) # (t', v') # rest)
        = (t + d, v) # debounceTime timerFirst d ((t', v') # rest)"
      by simp
    from "3.prems" have le: "\<forall>e\<in>set ((t', v') # rest). t \<le> fst e" by auto
    have "\<forall>e\<in>set (debounceTime timerFirst d ((t', v') # rest)). t + d \<le> fst e"
      using debounceTime_times [of timerFirst d "(t', v') # rest"] le by fastforce
    with "3.IH"(2) [OF False s] show ?thesis unfolding eq by simp
  qed
qed

lemma filter_window_split:
  "sorted (map fst evs) \<Longrightarrow>
   filter (\<lambda>e. fst e div w < n) evs @ filter (\<lambda>e. fst e div w = n) evs
     = filter (\<lambda>e. fst e div w < Suc n) (evs :: 'a timed)"
proof (induction evs)
  case Nil
  show ?case by simp
next
  case (Cons e evs)
  from Cons.prems have s: "sorted (map fst evs)" and le: "\<forall>x\<in>set evs. fst e \<le> fst x" by auto
  show ?case
  proof (cases "fst e div w < n")
    case True
    with Cons.IH [OF s] show ?thesis by simp
  next
    case False
    have "\<forall>x\<in>set evs. \<not> fst x div w < n"
    proof
      fix x assume "x \<in> set evs"
      with le have "fst e div w \<le> fst x div w" by (simp add: div_le_mono)
      with False show "\<not> fst x div w < n" by simp
    qed
    then have "filter (\<lambda>e. fst e div w < n) evs = []" by (simp add: filter_empty_conv)
    with Cons.IH [OF s] False show ?thesis by (auto simp: less_Suc_eq)
  qed
qed

lemma concat_bufferTime_upto:
  "sorted (map fst evs) \<Longrightarrow>
   concat (bufferTime w n evs) = map snd (filter (\<lambda>e. fst e div w < n) evs)"
proof (induction n)
  case 0
  show ?case by (simp add: bufferTime_def)
next
  case (Suc n)
  have "concat (bufferTime w (Suc n) evs)
      = concat (bufferTime w n evs) @ map snd (filter (\<lambda>e. fst e div w = n) evs)"
    by (simp add: bufferTime_def)
  also have "\<dots> = map snd (filter (\<lambda>e. fst e div w < n) evs @ filter (\<lambda>e. fst e div w = n) evs)"
    using Suc.IH [OF Suc.prems] by simp
  also have "\<dots> = map snd (filter (\<lambda>e. fst e div w < Suc n) evs)"
    by (simp only: filter_window_split [OF Suc.prems])
  finally show ?case .
qed

lemma concat_bufferTime:
  assumes "sorted (map fst evs)" and "0 < w" and "\<forall>e\<in>set evs. fst e < w * n"
  shows "concat (bufferTime w n evs) = map snd evs"
proof -
  have "\<forall>e\<in>set evs. fst e div w < n"
    using assms(2,3) by (simp add: less_mult_imp_div_less mult.commute)
  then have "filter (\<lambda>e. fst e div w < n) evs = evs" by (simp add: filter_id_conv)
  with concat_bufferTime_upto [OF assms(1), of w n] show ?thesis by simp
qed

lemma bufferTime_empty_window:
  "k < n \<Longrightarrow> \<forall>e\<in>set evs. fst e div w \<noteq> k \<Longrightarrow> bufferTime w n evs ! k = []"
  by (simp add: bufferTime_def filter_empty_conv)

text \<open>
  C6. A flush window in which nothing has entered the queue has the empty buffer, and the
  flush of it leaves the component as it is: \<open>processBatchUpdates\<close> is not entered, the
  rows are not touched and the grid receives no call.
\<close>

theorem empty_window_no_flush:
  assumes "k < n" and "\<forall>e\<in>set queued. fst e div 100 \<noteq> k"
  shows "bufferTime 100 n queued ! k = []
    \<and> flushWindow gen c (bufferTime 100 n queued ! k) = (None, c)"
  using bufferTime_empty_window [OF assms] by (simp add: flushWindow_def)

theorem empty_window_no_flush_witness:
  "bufferTime 100 3 [(60, m12)] ! 1 = []
   \<and> flushWindow stamps comp0 (bufferTime 100 3 [(60, m12)] ! 1) = (None, comp0)"
proof -
  have h1: "(1::nat) < 3" by simp
  have h2: "\<forall>e\<in>set [(60::nat, m12)]. fst e div 100 \<noteq> 1" by simp
  show ?thesis
    by (rule empty_window_no_flush [OF h1 h2])
qed

lemma newMap_values: "snd ` set (newMap es) \<subseteq> snd ` set es"
proof -
  have "\<And>acc. snd ` set (foldl (\<lambda>m (k, v). AList.update k v m) acc es)
      \<subseteq> snd ` set acc \<union> snd ` set es"
  proof (induction es)
    case Nil
    show ?case by simp
  next
    case (Cons e es)
    obtain k v where e: "e = (k, v)" by (cases e)
    have "snd ` set (AList.update k v acc) \<subseteq> insert v (snd ` set acc)"
      using set_update_subset [of k v acc] by fastforce
    with Cons.IH [of "AList.update k v acc"] e show ?case by auto
  qed
  from this [of "[]"] show ?thesis by (simp add: newMap_def)
qed

lemma entriesOf_rows: "entriesOf rows = Inr es \<Longrightarrow> map snd es = rows"
  by (induction rows arbitrary: es) (auto split: if_splits sum.splits)

lemma entriesOf_values: "entriesOf rows = Inr es \<Longrightarrow> snd ` set es \<subseteq> set rows"
  using entriesOf_rows [of rows es] by (metis set_map subset_refl)

lemma applyUpdate_defined:
  assumes "\<forall>e\<in>set dm. \<not> nullish (snd e)" and "applyUpdate dm u = Inr dm'"
  shows "\<forall>e\<in>set dm'. \<not> nullish (snd e)"
proof -
  from assms(2) have nn: "\<not> nullish u" by (auto simp: applyUpdate_def split: if_splits)
  have "\<And>v. \<not> nullish v \<Longrightarrow> \<forall>e\<in>set (AList.update (idOrKey u) v dm). \<not> nullish (snd e)"
    using assms(1) set_update_subset [of "idOrKey u" _ dm] by fastforce
  with assms(2) nn nullish_spread show ?thesis
    by (auto simp: applyUpdate_def split: option.splits)
qed

lemma applyLoop_defined:
  "\<forall>e\<in>set dm. \<not> nullish (snd e) \<Longrightarrow> applyLoop dm us = Inr dm' \<Longrightarrow> \<forall>e\<in>set dm'. \<not> nullish (snd e)"
proof (induction us arbitrary: dm)
  case Nil
  then show ?case by simp
next
  case (Cons u us)
  from Cons.prems(2) obtain dm1 where 1: "applyUpdate dm u = Inr dm1" and 2: "applyLoop dm1 us = Inr dm'"
    by (auto split: sum.splits)
  from Cons.IH [OF applyUpdate_defined [OF Cons.prems(1) 1] 2] show ?case .
qed

lemma applyUpdatesToData_defined:
  assumes "\<forall>u\<in>set us. \<not> nullish u" and "\<forall>r\<in>set rows. \<not> nullish r"
  shows "\<exists>data. applyUpdatesToData rows us = Inr data \<and> (\<forall>r\<in>set data. \<not> nullish r)"
proof -
  from entriesOf_total [OF assms(2)] obtain es where es: "entriesOf rows = Inr es" by blast
  then have t: "tableMap rows = Inr (newMap es)" by (simp add: tableMap_def)
  have "\<forall>e\<in>set (newMap es). \<not> nullish (snd e)"
    using newMap_values [of es] entriesOf_values [OF es] assms(2) by fastforce
  moreover from applyLoop_total [OF assms(1), of "newMap es"] obtain dm'
    where a: "applyLoop (newMap es) us = Inr dm'" by blast
  ultimately have "\<forall>e\<in>set dm'. \<not> nullish (snd e)" by (rule applyLoop_defined)
  with t a show ?thesis by (auto simp: applyUpdatesToData_def)
qed

lemma processBatchUpdates_returns:
  assumes "\<forall>u\<in>set us. \<not> nullish u" and "\<forall>r\<in>set (rowData c). \<not> nullish r"
  shows "\<exists>c'. processBatchUpdates gen c us = (None, c') \<and> (\<forall>r\<in>set (rowData c'). \<not> nullish r)"
proof (cases "gridApi c")
  case None
  with assms(2) show ?thesis by (simp add: processBatchUpdates_def)
next
  case (Some api)
  from mergeLoop_total [OF assms(1)] obtain m where l: "mergeLoop gen 0 [] us = Inr m" by blast
  then have m: "mergeUpdates gen us = Inr (map snd m)" by (simp add: mergeUpdates_def)
  from mergeLoop_values [OF l] assms(1) have "\<forall>u\<in>set (map snd m). \<not> nullish u" by auto
  from applyUpdatesToData_defined [OF this assms(2)] obtain data
    where "applyUpdatesToData (rowData c) (map snd m) = Inr data" "\<forall>r\<in>set data. \<not> nullish r"
    by blast
  with Some m show ?thesis by (simp add: processBatchUpdates_def)
qed

lemma flushWindow_returns:
  assumes "JUndefined \<notin> set buffer" and "\<forall>r\<in>set (rowData c). \<not> nullish r"
  shows "\<exists>c'. flushWindow gen c buffer = (None, c') \<and> (\<forall>r\<in>set (rowData c'). \<not> nullish r)"
proof -
  have "\<forall>u\<in>set (filter (\<lambda>u. u \<noteq> JNull) buffer). \<not> nullish u"
  proof
    fix u assume "u \<in> set (filter (\<lambda>u. u \<noteq> JNull) buffer)"
    with assms(1) have "u \<noteq> JNull" "u \<noteq> JUndefined" by auto
    then show "\<not> nullish u" by (cases u) simp_all
  qed
  from processBatchUpdates_returns [OF this assms(2), of gen] assms(2)
  show ?thesis by (auto simp: flushWindow_def Let_def)
qed

lemma runWindows_all:
  "\<forall>b\<in>set buffers. JUndefined \<notin> set b \<Longrightarrow> \<forall>r\<in>set (rowData c). \<not> nullish r \<Longrightarrow>
   fst (runWindows gens k c buffers) = map (filter (\<lambda>u. u \<noteq> JNull)) buffers"
proof (induction buffers arbitrary: k c)
  case Nil
  show ?case by simp
next
  case (Cons b buffers)
  from Cons.prems have "JUndefined \<notin> set b" by simp
  from flushWindow_returns [OF this Cons.prems(2), of "gens k"] obtain c'
    where f: "flushWindow (gens k) c b = (None, c')" and r: "\<forall>r\<in>set (rowData c'). \<not> nullish r"
    by blast
  from Cons.prems(1) have "\<forall>b\<in>set buffers. JUndefined \<notin> set b" by simp
  from Cons.IH [OF this r, of "Suc k"] f show ?case
    by (simp add: case_prod_beta)
qed

lemma bufferTime_values: "\<forall>b\<in>set (bufferTime w n evs). set b \<subseteq> snd ` set evs"
  by (auto simp: bufferTime_def)

text \<open>
  C4, as the claim states it, fails: of two messages delivered 10 ms apart, the first is
  dropped by the debounce of 50 ms and appears in no batch.
\<close>

theorem debounce_drops_counterexample:
  "batches (\<lambda>t. True) (\<lambda>k. stamps) comp0 2 [(0, m10), (10, m12)] = [[m12], []]
   \<and> m10 \<notin> set (concat (batches (\<lambda>t. True) (\<lambda>k. stamps) comp0 2 [(0, m10), (10, m12)]))"
  by (simp add: batches_def bufferTime_def flushWindow_def upt_rec Let_def
      mergeUpdates_def applyUpdatesToData_def tableMap_def applyUpdate_def newMap_def
      idOrKey_def ownField_def processBatchUpdates_def updateRows_def called_def
      comp0_def grid0_def m10_def m12_def)

text \<open>
  C4, amended. For every sequence of messages the topic subscription delivers, none of them
  \<open>undefined\<close>, to a component whose table holds no \<open>undefined\<close> or \<open>null\<close> row: the
  messages that pass the debounce of 50 ms (a message is dropped when the next one is
  delivered less than 50 ms after it, and at exactly 50 ms when the runtime runs the
  arrival before the timer) and are not \<open>null\<close> each appear in exactly one batch, the
  batch of the window in which the debounce emits them, and the batches one after the
  other hold them in the order of arrival.
\<close>

theorem debounced_messages_batched_once:
  assumes "sorted (map fst delivered)" and "\<forall>e\<in>set delivered. fst e + 50 < 100 * n"
    and "\<forall>e\<in>set delivered. snd e \<noteq> JUndefined" and "\<forall>r\<in>set (rowData c). \<not> nullish r"
  shows "batches timerFirst gens c n delivered
       = map (filter (\<lambda>u. u \<noteq> JNull)) (bufferTime 100 n (debounceTime timerFirst 50 delivered))
    \<and> concat (batches timerFirst gens c n delivered)
       = filter (\<lambda>u. u \<noteq> JNull) (map snd (debounceTime timerFirst 50 delivered))"
proof -
  let ?q = "debounceTime timerFirst 50 delivered"
  have s: "sorted (map fst ?q)" by (rule debounceTime_sorted [OF assms(1)])
  have b: "\<forall>e\<in>set ?q. fst e < 100 * n"
    using debounceTime_times [of timerFirst 50 delivered] assms(2) by fastforce
  have v: "snd ` set ?q \<subseteq> snd ` set delivered"
    using debounceTime_times [of timerFirst 50 delivered] by fastforce
  have "\<forall>b\<in>set (bufferTime 100 n ?q). JUndefined \<notin> set b"
    using bufferTime_values [of 100 n ?q] v assms(3) by fastforce
  from runWindows_all [OF this assms(4)]
  have 1: "batches timerFirst gens c n delivered
       = map (filter (\<lambda>u. u \<noteq> JNull)) (bufferTime 100 n ?q)"
    by (simp add: batches_def)
  have "concat (bufferTime 100 n ?q) = map snd ?q"
    by (rule concat_bufferTime [OF s _ b]) simp
  then have 2: "concat (map (filter (\<lambda>u. u \<noteq> JNull)) (bufferTime 100 n ?q))
       = filter (\<lambda>u. u \<noteq> JNull) (map snd ?q)"
    by (simp flip: filter_concat)
  from 1 2 show ?thesis by simp
qed

theorem debounced_messages_batched_once_witness:
  "batches (\<lambda>t. False) (\<lambda>k. stamps) comp0 5 [(0, m10), (50, m12), (200, JNull), (400, remB)]
     = [[], [m12], [], [], [remB]]
   \<and> concat (batches (\<lambda>t. False) (\<lambda>k. stamps) comp0 5 [(0, m10), (50, m12), (200, JNull), (400, remB)])
     = filter (\<lambda>u. u \<noteq> JNull)
         (map snd (debounceTime (\<lambda>t. False) 50 [(0, m10), (50, m12), (200, JNull), (400, remB)]))"
proof -
  have h1: "sorted (map fst [(0::nat, m10), (50, m12), (200, JNull), (400, remB)])" by simp
  have h2: "\<forall>e\<in>set [(0::nat, m10), (50, m12), (200, JNull), (400, remB)]. fst e + 50 < 100 * 5"
    by simp
  have h3: "\<forall>e\<in>set [(0::nat, m10), (50, m12), (200, JNull), (400, remB)]. snd e \<noteq> JUndefined"
    by (simp add: m10_def m12_def remB_def)
  have h4: "\<forall>r\<in>set (rowData comp0). \<not> nullish r" by (simp add: comp0_def)
  have e: "map (filter (\<lambda>u. u \<noteq> JNull))
        (bufferTime 100 5 (debounceTime (\<lambda>t. False) 50 [(0, m10), (50, m12), (200, JNull), (400, remB)]))
      = [[], [m12], [], [], [remB]]"
    by (simp add: bufferTime_def upt_rec m12_def remB_def)
  from debounced_messages_batched_once [OF h1 h2 h3 h4, of "\<lambda>t. False" "\<lambda>k. stamps"] e
  show ?thesis by (simp add: m12_def remB_def)
qed

end
